theory Spec2Isabelle
  imports Complex_Main
begin

section \<open>Shared conventions\<close>

text \<open>
  JavaScript numbers are modelled as reals (or as integers / naturals where the source
  only ever produces integral values, e.g. after \<^verbatim>\<open>Math.round\<close> or
  \<^verbatim>\<open>Math.floor\<close>).  A thrown exception is a value of type \<open>js_error\<close>
  on the left of a sum; \<^verbatim>\<open>undefined\<close> is \<open>None\<close>.
\<close>

datatype js_error =
    TypeError
  | InvalidTileId nat
  | InvalidEntityId nat

text \<open>\<^verbatim>\<open>a % b\<close> on numbers, for \<open>b \<noteq> 0\<close>: the remainder of the truncated division,
  which carries the sign of the dividend.\<close>

definition js_rem :: "real \<Rightarrow> real \<Rightarrow> real" where
  "js_rem a b = a - b * of_int (if 0 \<le> a / b then \<lfloor>a / b\<rfloor> else \<lceil>a / b\<rceil>)"


section \<open>Canvace.FrameTable: the animation resolver\<close>

record frame =
  fid :: nat
  duration :: "nat option"

text \<open>\<^verbatim>\<open>function gcd(a, b) { var t; while (b) { t = b; b = a % b; a = t; } return a; }\<close>\<close>

function gcd_js :: "nat \<Rightarrow> nat \<Rightarrow> nat" where
  "gcd_js a b = (if b \<noteq> 0 then gcd_js b (a mod b) else a)"
  by pat_completeness auto
termination
  by (relation "measure (\<lambda>(a, b). b)") auto

declare gcd_js.simps [simp del]

text \<open>The variables captured by the closures of a multi-frame \<^verbatim>\<open>Animation\<close>.\<close>

record anim_state =
  frames :: "frame list"
  partialUnit :: nat
  fullDuration :: nat
  looping :: bool
  lastFrameId :: "nat option"
  table :: "nat \<rightharpoonup> nat"
  unit :: nat

text \<open>
  The first loop of \<^verbatim>\<open>Animation\<close>:
  \<^verbatim>\<open>for (var i in frames) { if (frames[i].hasOwnProperty('duration')) { partialUnit = gcd(partialUnit, frames[i].duration); fullDuration += frames[i].duration; } else { looping = false; lastFrameId = frames[i].id; } }\<close>
\<close>

definition scan_frame :: "frame \<Rightarrow> nat \<times> nat \<times> bool \<times> nat option \<Rightarrow> nat \<times> nat \<times> bool \<times> nat option" where
  "scan_frame f acc =
     (case acc of (pu, fd, lp, lf) \<Rightarrow>
        (case duration f of
           Some d \<Rightarrow> (gcd_js pu d, fd + d, lp, lf)
         | None \<Rightarrow> (pu, fd, False, Some (fid f))))"

definition scan_frames :: "frame list \<Rightarrow> nat \<times> nat \<times> bool \<times> nat option" where
  "scan_frames fs = fold scan_frame fs (0, 0, True, None)"

text \<open>
  The loop of \<^verbatim>\<open>synchronize\<close>:
  \<^verbatim>\<open>for (var time = 0; time < fullDuration; time += unit, frameTime += unit) { if (frameTime > frames[frameIndex].duration) { frameIndex++; frameTime = 0; } table[time] = frames[frameIndex].id; }\<close>
  Reading a field of \<^verbatim>\<open>frames[frameIndex]\<close> beyond the end of the array throws a
  \<^verbatim>\<open>TypeError\<close>; a comparison with a missing duration (\<^verbatim>\<open>undefined\<close>) is false.
  With \<open>unit = 0\<close> and \<open>0 < fullDuration\<close> the loop never ends: the result is \<open>None\<close>.
\<close>

partial_function (option) synchronize_loop ::
  "frame list \<Rightarrow> nat \<Rightarrow> nat \<Rightarrow> nat \<Rightarrow> nat \<Rightarrow> nat \<Rightarrow> (nat \<rightharpoonup> nat)
     \<Rightarrow> (js_error + (nat \<rightharpoonup> nat)) option" where
  "synchronize_loop fs u full time frameIndex frameTime tbl =
     (if time < full then
        (if frameIndex < length fs then
           (let advance = (case duration (fs ! frameIndex) of
                             None \<Rightarrow> False
                           | Some d \<Rightarrow> frameTime > d);
                frameIndex' = (if advance then frameIndex + 1 else frameIndex);
                frameTime' = (if advance then 0 else frameTime)
            in if frameIndex' < length fs
               then synchronize_loop fs u full (time + u) frameIndex' (frameTime' + u)
                      (tbl(time \<mapsto> fid (fs ! frameIndex')))
               else Some (Inl TypeError))
         else Some (Inl TypeError))
      else Some (Inr tbl))"

declare synchronize_loop.simps [code]

definition synchronize :: "anim_state \<Rightarrow> nat \<Rightarrow> (js_error + anim_state) option" where
  "synchronize a period =
     (let u = gcd_js (partialUnit a) period
      in case synchronize_loop (frames a) u (fullDuration a) 0 0 0 Map.empty of
           None \<Rightarrow> None
         | Some (Inl e) \<Rightarrow> Some (Inl e)
         | Some (Inr t) \<Rightarrow> Some (Inr (a\<lparr>table := t, unit := u\<rparr>)))"

datatype animation =
    StaticAnimation "frame list"
  | TableAnimation anim_state

definition Animation :: "frame list \<Rightarrow> (js_error + animation) option" where
  "Animation fs =
     (if length fs < 2 then Some (Inr (StaticAnimation fs))
      else
        (case scan_frames fs of (pu, fd, lp, lf) \<Rightarrow>
           (case synchronize
                   \<lparr>frames = fs, partialUnit = pu, fullDuration = fd, looping = lp,
                    lastFrameId = lf, table = Map.empty, unit = 0\<rparr> pu of
              None \<Rightarrow> None
            | Some (Inl e) \<Rightarrow> Some (Inl e)
            | Some (Inr a) \<Rightarrow> Some (Inr (TableAnimation a)))))"

text \<open>
  \<^verbatim>\<open>table[Math.floor(x / unit) * unit]\<close>.  With \<open>unit = 0\<close> the key is
  \<^verbatim>\<open>NaN\<close>, and a negative key is never in the table: both read \<^verbatim>\<open>undefined\<close>.
\<close>

definition table_lookup :: "anim_state \<Rightarrow> real \<Rightarrow> nat option" where
  "table_lookup a x =
     (if unit a = 0 then None
      else (let key = \<lfloor>x / real (unit a)\<rfloor> * int (unit a)
            in if key < 0 then None else table a (nat key)))"

text \<open>
  Calling the animation function with a timestamp.  The static one returns
  \<^verbatim>\<open>frames[0].id\<close>; the looping one
  \<^verbatim>\<open>table[Math.floor((timestamp % fullDuration) / unit) * unit]\<close>, where a zero
  \<open>fullDuration\<close> makes the key \<^verbatim>\<open>NaN\<close>; the one-shot one returns
  \<^verbatim>\<open>lastFrameId\<close> from \<open>fullDuration\<close> on.
\<close>

fun getFrame :: "animation \<Rightarrow> real \<Rightarrow> js_error + nat option" where
  "getFrame (StaticAnimation fs) timestamp =
     (case fs of [] \<Rightarrow> Inl TypeError | f # _ \<Rightarrow> Inr (Some (fid f)))"
| "getFrame (TableAnimation a) timestamp =
     (if looping a then
        (if fullDuration a = 0 then Inr None
         else Inr (table_lookup a (js_rem timestamp (real (fullDuration a)))))
      else if timestamp \<ge> real (fullDuration a) then Inr (lastFrameId a)
      else Inr (table_lookup a timestamp))"

text \<open>The multi-frame animations a frame table can hold for a frame list: the one built by
  \<^verbatim>\<open>Animation\<close>, re-synchronized any number of times.\<close>

inductive registered :: "frame list \<Rightarrow> anim_state \<Rightarrow> bool" where
  registered_new: "Animation fs = Some (Inr (TableAnimation a)) \<Longrightarrow> registered fs a"
| registered_sync: "registered fs a \<Longrightarrow> synchronize a period = Some (Inr a') \<Longrightarrow> registered fs a'"

text \<open>A two-frame looping sequence and the animation state built from it.\<close>

definition demo_frames :: "frame list" where
  "demo_frames = [\<lparr>fid = 1, duration = Some 10\<rparr>, \<lparr>fid = 2, duration = Some 20\<rparr>]"

definition demo_anim :: anim_state where
  "demo_anim = \<lparr>frames = demo_frames, partialUnit = 10, fullDuration = 30, looping = True,
      lastFrameId = None, table = [0 \<mapsto> 1, 10 \<mapsto> 1, 20 \<mapsto> 2], unit = 10\<rparr>"


section \<open>Static stage data\<close>

text \<open>
  A tile or entity descriptor of the stage data, as far as the engine reads it: the frame
  list, the size and the screen-space offset.  A tile descriptor extends it by the layout
  (span and reference cell), the solid and mutable flags and the custom properties.
\<close>

record element_desc =
  el_frames :: "frame list"
  el_width :: int
  el_height :: int
  el_offset_x :: real
  el_offset_y :: real

record layout =
  span_i :: int
  span_j :: int
  ref_i :: int
  ref_j :: int

record 'p tile = element_desc +
  tile_layout :: layout
  solid :: bool
  mutable :: bool
  properties :: 'p

record 'p stage_data =
  tiles :: "nat \<rightharpoonup> 'p tile"
  entities :: "nat \<rightharpoonup> element_desc"


section \<open>Canvace.Matrix\<close>

text \<open>
  The sparse three-dimensional matrix.  Its keys are the strings
  \<^verbatim>\<open>i + ' ' + j + ' ' + k\<close> of integer coordinates, modelled as triples; \<open>layers\<close> is
  the set of \<open>k\<close> ever written.
\<close>

record 'v matrix =
  data :: "int \<times> int \<times> int \<rightharpoonup> 'v"
  layers :: "int set"

definition Matrix_new :: "'v matrix" where
  "Matrix_new = \<lparr>data = Map.empty, layers = {}\<rparr>"

definition Matrix_get :: "'v matrix \<Rightarrow> int \<Rightarrow> int \<Rightarrow> int \<Rightarrow> 'v option" where
  "Matrix_get m i j k = data m (i, j, k)"

definition Matrix_put :: "'v matrix \<Rightarrow> int \<Rightarrow> int \<Rightarrow> int \<Rightarrow> 'v \<Rightarrow> 'v matrix" where
  "Matrix_put m i j k v = m\<lparr>data := (data m)((i, j, k) \<mapsto> v), layers := insert k (layers m)\<rparr>"

definition Matrix_has :: "'v matrix \<Rightarrow> int \<Rightarrow> int \<Rightarrow> int \<Rightarrow> bool" where
  "Matrix_has m i j k = (data m (i, j, k) \<noteq> None)"

definition Matrix_hasLayer :: "'v matrix \<Rightarrow> int \<Rightarrow> bool" where
  "Matrix_hasLayer m k = (k \<in> layers m)"

text \<open>\<^verbatim>\<open>erase\<close> returns whether a value was present, and the matrix without it.\<close>

definition Matrix_erase :: "'v matrix \<Rightarrow> int \<Rightarrow> int \<Rightarrow> int \<Rightarrow> bool \<times> 'v matrix" where
  "Matrix_erase m i j k =
     (if data m (i, j, k) \<noteq> None then (True, m\<lparr>data := (data m)((i, j, k) := None)\<rparr>)
      else (False, m))"


section \<open>Canvace.TileMap: cells, graph nodes and tile collisions\<close>

text \<open>
  A cell of the tile map holds a number (the tile id: a single-cell tile or the reference
  cell of a multi-cell tile) or a string with the coordinates of the reference cell.
\<close>

datatype cell = TileId nat | RefCell int int

text \<open>A loop whose body can throw: the first error ends it.\<close>

fun foldE :: "('a \<Rightarrow> 's \<Rightarrow> js_error + 's) \<Rightarrow> 'a list \<Rightarrow> 's \<Rightarrow> js_error + 's" where
  "foldE f [] s = Inr s"
| "foldE f (x # xs) s = (case f x s of Inl e \<Rightarrow> Inl e | Inr s' \<Rightarrow> foldE f xs s')"

text \<open>
  The lookup shared by \<^verbatim>\<open>canClear\<close>, \<^verbatim>\<open>walkable\<close> and \<^verbatim>\<open>solidTileAt\<close>:
  \<^verbatim>\<open>var id = matrix.get(i, j, k); if (typeof id !== 'number') { var coordinates = id.split(' '); id = matrix.get(coordinates[0], coordinates[1], k); } ... data.tiles[id]. ...\<close>
  Calling \<^verbatim>\<open>split\<close> on \<^verbatim>\<open>undefined\<close> (an empty cell) throws a \<^verbatim>\<open>TypeError\<close>,
  and so does reading a field of \<^verbatim>\<open>data.tiles[id]\<close> when \<open>id\<close> is not a key of
  \<^verbatim>\<open>data.tiles\<close> (an unknown number, a string, or \<^verbatim>\<open>undefined\<close>).
\<close>

definition tileDescriptor :: "'p stage_data \<Rightarrow> cell option \<Rightarrow> js_error + 'p tile" where
  "tileDescriptor d v =
     (case v of
        Some (TileId tid) \<Rightarrow> (case tiles d tid of None \<Rightarrow> Inl TypeError | Some t \<Rightarrow> Inr t)
      | _ \<Rightarrow> Inl TypeError)"

definition tileAt :: "'p stage_data \<Rightarrow> cell matrix \<Rightarrow> int \<Rightarrow> int \<Rightarrow> int \<Rightarrow> js_error + 'p tile" where
  "tileAt d m i j k =
     (case Matrix_get m i j k of
        None \<Rightarrow> Inl TypeError
      | Some (TileId tid) \<Rightarrow> tileDescriptor d (Some (TileId tid))
      | Some (RefCell i' j') \<Rightarrow> tileDescriptor d (Matrix_get m i' j' k))"

subsection \<open>getGraphNode\<close>

record graph_node =
  node_id :: "int \<times> int \<times> int"
  heuristic :: real
  neighbors :: "(nat \<times> int \<times> int) list"

text \<open>\<^verbatim>\<open>[-1, -1, -1, 0, 0, 0, 1, 1, 1][index]\<close> and \<^verbatim>\<open>[-1, 0, 1, -1, 0, 1, -1, 0, 1][index]\<close>\<close>

definition offset_i :: "nat \<Rightarrow> int" where
  "offset_i index = [-1, -1, -1, 0, 0, 0, 1, 1, 1] ! index"

definition offset_j :: "nat \<Rightarrow> int" where
  "offset_j index = [-1, 0, 1, -1, 0, 1, -1, 0, 1] ! index"

text \<open>\<^verbatim>\<open>distance: function (index) { if (parseInt(index, 10) % 2) { return 1; } else { return Math.sqrt(2); } }\<close>\<close>

definition distance :: "nat \<Rightarrow> real" where
  "distance index = (if index mod 2 \<noteq> 0 then 1 else sqrt 2)"

text \<open>\<^verbatim>\<open>function walkable(i, j) { if (matrix.has(i, j, k)) { ...; return !data.tiles[id].solid; } else { return false; } }\<close>\<close>

definition walkable :: "'p stage_data \<Rightarrow> cell matrix \<Rightarrow> int \<Rightarrow> int \<Rightarrow> int \<Rightarrow> js_error + bool" where
  "walkable d m k i j =
     (if Matrix_has m i j k then
        (case tileAt d m i j k of Inl e \<Rightarrow> Inl e | Inr t \<Rightarrow> Inr (\<not> solid t))
      else Inr False)"

text \<open>
  One round of the loop over \<open>index = 0, \<dots>, 8\<close>:
  \<^verbatim>\<open>if (((i1 !== i) || (j1 !== j)) && walkable(i1, j1)) { if ((index % 2) || walkable(i, j1) && walkable(i1, j)) { node.neighbors[index] = bind(i1, j1); } }\<close>
  The operands are evaluated left to right and only as far as needed.
\<close>

definition addNeighbor ::
  "'p stage_data \<Rightarrow> cell matrix \<Rightarrow> int \<Rightarrow> int \<Rightarrow> int \<Rightarrow> nat
     \<Rightarrow> (nat \<times> int \<times> int) list \<Rightarrow> js_error + (nat \<times> int \<times> int) list" where
  "addNeighbor d m k i j index ns =
     (let i1 = i + offset_i index; j1 = j + offset_j index
      in if i1 \<noteq> i \<or> j1 \<noteq> j then
           (case walkable d m k i1 j1 of
              Inl e \<Rightarrow> Inl e
            | Inr False \<Rightarrow> Inr ns
            | Inr True \<Rightarrow>
                (if index mod 2 \<noteq> 0 then Inr (ns @ [(index, i1, j1)])
                 else
                   (case walkable d m k i j1 of
                      Inl e \<Rightarrow> Inl e
                    | Inr False \<Rightarrow> Inr ns
                    | Inr True \<Rightarrow>
                        (case walkable d m k i1 j of
                           Inl e \<Rightarrow> Inl e
                         | Inr False \<Rightarrow> Inr ns
                         | Inr True \<Rightarrow> Inr (ns @ [(index, i1, j1)])))))
         else Inr ns)"

text \<open>Whether that round adds the edge \<open>index\<close>, read off the map.\<close>

definition edge_present :: "'p stage_data \<Rightarrow> cell matrix \<Rightarrow> int \<Rightarrow> int \<Rightarrow> int \<Rightarrow> nat \<Rightarrow> bool" where
  "edge_present d m k i j index =
     ((offset_i index \<noteq> 0 \<or> offset_j index \<noteq> 0)
      \<and> walkable d m k (i + offset_i index) (j + offset_j index) = Inr True
      \<and> (even index \<longrightarrow> walkable d m k i (j + offset_j index) = Inr True
                       \<and> walkable d m k (i + offset_i index) j = Inr True))"

text \<open>
  \<^verbatim>\<open>makeNode(i, j)\<close> for the target cell \<open>(ti, tj)\<close> of layer \<open>k\<close>; a neighbour is kept as
  the coordinates its closure is bound to.
\<close>

definition makeNode ::
  "'p stage_data \<Rightarrow> cell matrix \<Rightarrow> int \<Rightarrow> int \<Rightarrow> int \<Rightarrow> int \<Rightarrow> int \<Rightarrow> js_error + graph_node" where
  "makeNode d m k ti tj i j =
     (let di = \<bar>real_of_int (ti - i)\<bar>; dj = \<bar>real_of_int (tj - j)\<bar>
      in case foldE (addNeighbor d m k i j) [0..<9] [] of
           Inl e \<Rightarrow> Inl e
         | Inr ns \<Rightarrow>
             Inr \<lparr>node_id = (i, j, k),
                  heuristic = sqrt ((min di dj)\<^sup>2 * 2) + max di dj - min di dj,
                  neighbors = ns\<rparr>)"

definition getGraphNode ::
  "'p stage_data \<Rightarrow> cell matrix \<Rightarrow> int \<Rightarrow> int \<Rightarrow> int \<Rightarrow> int \<Rightarrow> int \<Rightarrow> js_error + graph_node" where
  "getGraphNode d m i j k i1 j1 = makeNode d m k i1 j1 i j"

subsection \<open>rectangleCollision\<close>

text \<open>
  \<^verbatim>\<open>solidTileAt(i, j)\<close>, with the optional \<^verbatim>\<open>collides\<close> callback: without it the tile's
  solid flag decides, with it \<^verbatim>\<open>collides(tile.solid, tile.properties)\<close> does.
\<close>

definition solidTileAt ::
  "'p stage_data \<Rightarrow> cell matrix \<Rightarrow> int \<Rightarrow> (bool \<Rightarrow> 'p \<Rightarrow> bool) option \<Rightarrow> int \<Rightarrow> int
     \<Rightarrow> js_error + bool" where
  "solidTileAt d m k collides i j =
     (if Matrix_has m i j k then
        (case tileAt d m i j k of
           Inl e \<Rightarrow> Inl e
         | Inr t \<Rightarrow>
             Inr (case collides of None \<Rightarrow> solid t | Some c \<Rightarrow> c (solid t) (properties t)))
      else Inr False)"

text \<open>
  The body of the first loop, over the columns \<open>j2\<close> of the rows \<open>i0\<close> and \<open>i1\<close>:
  \<^verbatim>\<open>if (solidTileAt(i0, j2)) { if ((i0 === i1) || !solidTileAt(i0 + 1, j2)) { viu = i0 + 1 - i; } } if (solidTileAt(i1, j2)) { if ((i0 === i1) || !solidTileAt(i1 - 1, j2)) { vio = i1 - i - di; } }\<close>
  The second loop is the same along the other axis.  Both are instances of \<open>scanEdge\<close>:
  \<open>sol a b\<close> reads the cell at position \<open>a\<close> across and \<open>b\<close> along the scanned edge.
\<close>

definition scanEdge ::
  "(int \<Rightarrow> int \<Rightarrow> js_error + bool) \<Rightarrow> int \<Rightarrow> int \<Rightarrow> real \<Rightarrow> real \<Rightarrow> int
     \<Rightarrow> real \<times> real \<Rightarrow> js_error + real \<times> real" where
  "scanEdge sol a0 a1 x dx b vs =
     (case vs of (vu, vo) \<Rightarrow>
       (case sol a0 b of
          Inl e \<Rightarrow> Inl e
        | Inr s0 \<Rightarrow>
           (case (if s0 then (if a0 = a1 then Inr True
                              else (case sol (a0 + 1) b of Inl e \<Rightarrow> Inl e | Inr s \<Rightarrow> Inr (\<not> s)))
                  else Inr False) of
              Inl e \<Rightarrow> Inl e
            | Inr setu \<Rightarrow>
               (let vu' = (if setu then real_of_int a0 + 1 - x else vu)
                in case sol a1 b of
                     Inl e \<Rightarrow> Inl e
                   | Inr s1 \<Rightarrow>
                      (case (if s1 then (if a0 = a1 then Inr True
                                         else (case sol (a1 - 1) b of
                                                 Inl e \<Rightarrow> Inl e | Inr s \<Rightarrow> Inr (\<not> s)))
                             else Inr False) of
                         Inl e \<Rightarrow> Inl e
                       | Inr seto \<Rightarrow>
                           Inr (vu', if seto then real_of_int a1 - x - dx else vo))))))"

text \<open>\<^verbatim>\<open>if (viu && vio) { v.i = 0; } else if (viu) { v.i = viu; } else { v.i = vio; }\<close>\<close>

definition combine :: "real \<Rightarrow> real \<Rightarrow> real" where
  "combine vu vo = (if vu \<noteq> 0 \<and> vo \<noteq> 0 then 0 else if vu \<noteq> 0 then vu else vo)"

text \<open>\<^verbatim>\<open>if (Math.abs(v.i) > Math.abs(Di) + 0.001) { v.i = 0; }\<close>\<close>

definition clamp :: "real \<Rightarrow> real \<Rightarrow> real" where
  "clamp v D = (if \<bar>v\<bar> > \<bar>D\<bar> + 1 / 1000 then 0 else v)"

text \<open>The result is the pair \<open>(v.i, v.j)\<close>.\<close>

definition rectangleCollision ::
  "'p stage_data \<Rightarrow> cell matrix \<Rightarrow> int \<Rightarrow> real \<Rightarrow> real \<Rightarrow> real \<Rightarrow> real \<Rightarrow> real \<Rightarrow> real
     \<Rightarrow> (bool \<Rightarrow> 'p \<Rightarrow> bool) option \<Rightarrow> js_error + real \<times> real" where
  "rectangleCollision d m k i j di dj Di Dj collides =
     (case
        (if Matrix_hasLayer m k then
           (let i0 = \<lfloor>i\<rfloor>; j0 = \<lfloor>j\<rfloor>; i1 = \<lceil>i + di\<rceil> - 1; j1 = \<lceil>j + dj\<rceil> - 1
            in case foldE (scanEdge (\<lambda>a b. solidTileAt d m k collides a b) i0 i1 i di)
                      [j0..j1] (0, 0) of
                 Inl e \<Rightarrow> Inl e
               | Inr (viu, vio) \<Rightarrow>
                   (case foldE (scanEdge (\<lambda>a b. solidTileAt d m k collides b a) j0 j1 j dj)
                           [i0..i1] (0, 0) of
                      Inl e \<Rightarrow> Inl e
                    | Inr (vju, vjo) \<Rightarrow> Inr (viu, vio, vju, vjo)))
         else Inr (0, 0, 0, 0)) of
        Inl e \<Rightarrow> Inl e
      | Inr (viu, vio, vju, vjo) \<Rightarrow>
          Inr (clamp (combine viu vio) Di, clamp (combine vju vjo) Dj))"

text \<open>A one-tile map: the solid tile 1 in cell \<open>(0, 0)\<close> of layer 0.\<close>

definition demo_tile :: "unit tile" where
  "demo_tile = \<lparr>el_frames = [\<lparr>fid = 0, duration = None\<rparr>], el_width = 32, el_height = 32,
      el_offset_x = 0, el_offset_y = 0,
      tile_layout = \<lparr>span_i = 1, span_j = 1, ref_i = 0, ref_j = 0\<rparr>,
      solid = True, mutable = False, properties = ()\<rparr>"

definition demo_data :: "unit stage_data" where
  "demo_data = \<lparr>tiles = [1 \<mapsto> demo_tile], entities = Map.empty\<rparr>"

definition demo_matrix :: "cell matrix" where
  "demo_matrix = Matrix_put Matrix_new 0 0 0 (TileId 1)"

text \<open>
  A map with the solid tile 1 in cell \<open>(0, 0)\<close> and the walkable tile 2 in the cells
  \<open>(1, 1)\<close>, \<open>(1, 2)\<close> and \<open>(2, 1)\<close>; cell \<open>(2, 2)\<close> refers to the reference cell
  \<open>(2, 1)\<close>.
\<close>

definition demo_floor :: "unit tile" where
  "demo_floor = demo_tile\<lparr>solid := False\<rparr>"

definition demo_walk_data :: "unit stage_data" where
  "demo_walk_data = \<lparr>tiles = [1 \<mapsto> demo_tile, 2 \<mapsto> demo_floor], entities = Map.empty\<rparr>"

definition demo_walk_matrix :: "cell matrix" where
  "demo_walk_matrix =
     Matrix_put (Matrix_put (Matrix_put (Matrix_put (Matrix_put Matrix_new
       0 0 0 (TileId 1)) 1 1 0 (TileId 2)) 1 2 0 (TileId 2)) 2 1 0 (TileId 2)) 2 2 0 (RefCell 2 1)"

definition demo_walk_node :: graph_node where
  "demo_walk_node = \<lparr>node_id = (1, 1, 0), heuristic = sqrt 2,
                      neighbors = [(5, 1, 2), (7, 2, 1), (8, 2, 2)]\<rparr>"


section \<open>Canvace.Heap\<close>

text \<open>
  The binary heap over the array \<open>heap\<close>.  The comparison \<open>compare\<close> and the identity test
  \<open>same\<close> are the constructor's arguments; \<open>compare\<close> is passed to every operation, since
  the pathfinder's comparison reads a table that changes between the calls.
\<close>

definition left :: "nat \<Rightarrow> nat" where
  "left i = i * 2 + 1"

definition right :: "nat \<Rightarrow> nat" where
  "right i = i * 2 + 2"

text \<open>\<^verbatim>\<open>Math.floor((i - 1) / 2)\<close>; it is only used for \<open>i > 0\<close>.\<close>

definition parent :: "nat \<Rightarrow> nat" where
  "parent i = (i - 1) div 2"

definition smaller :: "('n \<Rightarrow> 'n \<Rightarrow> int) \<Rightarrow> 'n list \<Rightarrow> nat \<Rightarrow> nat \<Rightarrow> bool" where
  "smaller compare heap i j = (compare (heap ! i) (heap ! j) < 0)"

definition swap :: "'n list \<Rightarrow> nat \<Rightarrow> nat \<Rightarrow> 'n list" where
  "swap heap i j = heap[i := heap ! j, j := heap ! i]"

function heapify :: "('n \<Rightarrow> 'n \<Rightarrow> int) \<Rightarrow> 'n list \<Rightarrow> nat \<Rightarrow> 'n list" where
  "heapify compare heap i =
     (let l = left i; r = right i;
          min1 = (if length heap > l \<and> smaller compare heap l i then l else i);
          min2 = (if length heap > r \<and> smaller compare heap r min1 then r else min1)
      in if min2 > i then heapify compare (swap heap i min2) min2 else heap)"
  by pat_completeness auto
termination
  by (relation "measure (\<lambda>(compare, heap, i). length heap - i)")
     (auto simp: swap_def left_def right_def split: if_splits)

declare heapify.simps [simp del]

text \<open>
  \<^verbatim>\<open>find(element, index, callback)\<close>: the index handed to the callback, or \<open>None\<close> when
  the search returns \<^verbatim>\<open>false\<close>.  A subtree is skipped when \<open>element\<close> compares below
  its root.
\<close>

function find_from :: "('n \<Rightarrow> 'n \<Rightarrow> int) \<Rightarrow> ('n \<Rightarrow> 'n \<Rightarrow> bool) \<Rightarrow> 'n list \<Rightarrow> 'n \<Rightarrow> nat \<Rightarrow> nat option" where
  "find_from compare same heap element index =
     (if index < length heap then
        (if same element (heap ! index) then Some index
         else if compare element (heap ! index) < 0 then None
         else (case find_from compare same heap element (left index) of
                 Some r \<Rightarrow> Some r
               | None \<Rightarrow> find_from compare same heap element (right index)))
      else None)"
  by pat_completeness auto
termination
  by (relation "measure (\<lambda>(compare, same, heap, element, index). length heap - index)")
     (auto simp: left_def right_def)

declare find_from.simps [simp del]

text \<open>
  The loop shared by \<^verbatim>\<open>push\<close> and \<^verbatim>\<open>decreaseKey\<close>:
  \<^verbatim>\<open>while (index && smaller(index, parentIndex)) { swap(index, parentIndex); index = parentIndex; parentIndex = parent(index); }\<close>
\<close>

function siftUp :: "('n \<Rightarrow> 'n \<Rightarrow> int) \<Rightarrow> 'n list \<Rightarrow> nat \<Rightarrow> 'n list" where
  "siftUp compare heap index =
     (if index \<noteq> 0 \<and> smaller compare heap index (parent index)
      then siftUp compare (swap heap index (parent index)) (parent index)
      else heap)"
  by pat_completeness auto
termination
  by (relation "measure (\<lambda>(compare, heap, index). index)") (auto simp: parent_def)

declare siftUp.simps [simp del]

definition Heap_push :: "('n \<Rightarrow> 'n \<Rightarrow> int) \<Rightarrow> 'n list \<Rightarrow> 'n \<Rightarrow> 'n list" where
  "Heap_push compare heap element = siftUp compare (heap @ [element]) (length heap)"

text \<open>
  \<^verbatim>\<open>pop\<close> returns \<^verbatim>\<open>heap[0]\<close> (\<^verbatim>\<open>undefined\<close> on an empty heap) and leaves the heap
  without its last slot, the last element moved to the root and sifted down.
\<close>

definition Heap_pop :: "('n \<Rightarrow> 'n \<Rightarrow> int) \<Rightarrow> 'n list \<Rightarrow> 'n option \<times> 'n list" where
  "Heap_pop compare heap =
     (case heap of
        [] \<Rightarrow> (None, [])
      | result # _ \<Rightarrow>
          (let last_el = last heap; heap' = butlast heap
           in if heap' \<noteq> [] then (Some result, heapify compare (heap'[0 := last_el]) 0)
              else (Some result, heap')))"

definition Heap_isEmpty :: "'n list \<Rightarrow> bool" where
  "Heap_isEmpty heap = (length heap = 0)"


section \<open>Canvace.Astar\<close>

text \<open>
  The graph a start node gives access to.  A node object is determined by its id (the
  engine builds a fresh object on every visit and compares ids), so a node is modelled by
  its id, with its heuristic, its labelled edges in enumeration order, and its edge
  weights.
\<close>

record ('n, 'e) graph =
  heuristic_of :: "'n \<Rightarrow> real"
  neighbors_of :: "'n \<Rightarrow> ('e \<times> 'n) list"
  distance_of :: "'n \<Rightarrow> 'e \<Rightarrow> real"

record ('n, 'e) astar_state =
  heap :: "'n list"
  openScore :: "'n \<rightharpoonup> real"
  closedSet :: "'n set"
  backLink :: "'n \<rightharpoonup> 'n \<times> 'e"

text \<open>
  The heap's comparison: \<^verbatim>\<open>fu = openScore[u.id] + u.heuristic * (1 + epsilon)\<close>, likewise
  \<open>fv\<close>; \<open>-1\<close>, \<open>1\<close> or \<open>0\<close>.  A missing score makes the sum \<^verbatim>\<open>NaN\<close>, so that both
  comparisons fail and the result is \<open>0\<close>.
\<close>

definition astar_compare :: "('n, 'e) graph \<Rightarrow> real \<Rightarrow> ('n \<rightharpoonup> real) \<Rightarrow> 'n \<Rightarrow> 'n \<Rightarrow> int" where
  "astar_compare g epsilon score u v =
     (case (score u, score v) of
        (Some su, Some sv) \<Rightarrow>
          (let fu = su + heuristic_of g u * (1 + epsilon);
               fv = sv + heuristic_of g v * (1 + epsilon)
           in if fu < fv then - 1 else if fu > fv then 1 else 0)
      | _ \<Rightarrow> 0)"

text \<open>
  \<^verbatim>\<open>heap.decreaseKey(node, function (node) { openScore[node.id] = cost; backLink[node.id] = { parent: currentNode, edge: edge }; })\<close>:
  the search runs with the scores as they are; when it finds the node the callback
  updates the tables and the node is sifted up under the new scores.
\<close>

definition decreaseKey ::
  "('n, 'e) graph \<Rightarrow> real \<Rightarrow> ('n, 'e) astar_state \<Rightarrow> 'n \<Rightarrow> real \<Rightarrow> 'n \<Rightarrow> 'e \<Rightarrow> ('n, 'e) astar_state" where
  "decreaseKey g epsilon st node cost currentNode edge =
     (case find_from (astar_compare g epsilon (openScore st)) (=) (heap st) node 0 of
        None \<Rightarrow> st
      | Some index \<Rightarrow>
          (let score' = (openScore st)(heap st ! index \<mapsto> cost);
               link' = (backLink st)(heap st ! index \<mapsto> (currentNode, edge))
           in st\<lparr>openScore := score', backLink := link',
                  heap := siftUp (astar_compare g epsilon score') (heap st) index\<rparr>))"

text \<open>The body of the loop over the edges of \<open>currentNode\<close>, whose score was \<open>score\<close>.\<close>

definition relax ::
  "('n, 'e) graph \<Rightarrow> real \<Rightarrow> 'n \<Rightarrow> real \<Rightarrow> 'e \<times> 'n \<Rightarrow> ('n, 'e) astar_state \<Rightarrow> ('n, 'e) astar_state" where
  "relax g epsilon currentNode score en st =
     (case en of (edge, node) \<Rightarrow>
        (if node \<notin> closedSet st then
           (let cost = score + distance_of g currentNode edge
            in case openScore st node of
                 Some old \<Rightarrow>
                   (if cost < old then decreaseKey g epsilon st node cost currentNode edge else st)
               | None \<Rightarrow>
                   (let score' = (openScore st)(node \<mapsto> cost)
                    in st\<lparr>openScore := score',
                           backLink := (backLink st)(node \<mapsto> (currentNode, edge)),
                           heap := Heap_push (astar_compare g epsilon score') (heap st) node\<rparr>))
         else st))"

text \<open>
  \<^verbatim>\<open>for (node = currentNode; backLink.hasOwnProperty(node.id); node = backLink[node.id].parent) { path.push(backLink[node.id].edge); }\<close>
  The result is the path before \<^verbatim>\<open>reverse\<close>; \<open>None\<close> if the walk never ends.
\<close>

partial_function (option) walkBack :: "('n \<rightharpoonup> 'n \<times> 'e) \<Rightarrow> 'n \<Rightarrow> 'e list \<Rightarrow> 'e list option" where
  "walkBack link node path =
     (case link node of
        None \<Rightarrow> Some path
      | Some (p, edge) \<Rightarrow> walkBack link p (path @ [edge]))"

declare walkBack.simps [code]

text \<open>
  The \<^verbatim>\<open>while (!heap.isEmpty())\<close> loop of \<^verbatim>\<open>findPath\<close>.  \<open>Some (Some path)\<close> is a returned
  path, \<open>Some None\<close> the result \<^verbatim>\<open>null\<close>, and \<open>None\<close> a search that never returns.
  The popped node exists, since the heap is not empty, and it has a score, since a score
  is stored before every \<^verbatim>\<open>push\<close> and deleted only here; the model gives no result
  otherwise.
\<close>

partial_function (option) findPath_loop ::
  "('n, 'e) graph \<Rightarrow> real \<Rightarrow> ('n, 'e) astar_state \<Rightarrow> 'e list option option" where
  "findPath_loop g epsilon st =
     (if \<not> Heap_isEmpty (heap st) then
        (case Heap_pop (astar_compare g epsilon (openScore st)) (heap st) of
           (None, _) \<Rightarrow> None
         | (Some currentNode, heap') \<Rightarrow>
             (case openScore st currentNode of
                None \<Rightarrow> None
              | Some score \<Rightarrow>
                  (let st1 = st\<lparr>heap := heap', openScore := (openScore st)(currentNode := None)\<rparr>
                   in if heuristic_of g currentNode \<noteq> 0 then
                        findPath_loop g epsilon
                          (fold (relax g epsilon currentNode score) (neighbors_of g currentNode)
                             (st1\<lparr>closedSet := insert currentNode (closedSet st1)\<rparr>))
                      else
                        (case walkBack (backLink st1) currentNode [] of
                           None \<Rightarrow> None
                         | Some path \<Rightarrow> Some (Some (rev path))))))
      else Some None)"

declare findPath_loop.simps [code]

text \<open>\<^verbatim>\<open>new Canvace.Astar(epsilon).findPath(startNode)\<close>, for a number \<open>epsilon \<ge> 0\<close>.\<close>

definition findPath :: "real \<Rightarrow> ('n, 'e) graph \<Rightarrow> 'n \<Rightarrow> 'e list option option" where
  "findPath epsilon g startNode =
     (let score0 = [startNode \<mapsto> 0]
      in findPath_loop g epsilon
           \<lparr>heap = Heap_push (astar_compare g epsilon score0) [] startNode,
            openScore = score0, closedSet = {}, backLink = Map.empty\<rparr>)"

text \<open>The cost of walking a list of edge labels from a node: the sum of the edge weights,
  or \<open>None\<close> if some label is not an edge of the node reached.\<close>

fun path_cost :: "('n, 'e) graph \<Rightarrow> 'n \<Rightarrow> 'e list \<Rightarrow> real option" where
  "path_cost g n [] = Some 0"
| "path_cost g n (e # es) =
     (case map_of (neighbors_of g n) e of
        None \<Rightarrow> None
      | Some n' \<Rightarrow> (case path_cost g n' es of
                      None \<Rightarrow> None
                    | Some c \<Rightarrow> Some (distance_of g n e + c)))"

fun path_end :: "('n, 'e) graph \<Rightarrow> 'n \<Rightarrow> 'e list \<Rightarrow> 'n option" where
  "path_end g n [] = Some n"
| "path_end g n (e # es) =
     (case map_of (neighbors_of g n) e of None \<Rightarrow> None | Some n' \<Rightarrow> path_end g n' es)"

text \<open>
  A five-node graph.  The goal is \<open>NG\<close>; the edges are \<open>S \<rightarrow> A\<close> (1), \<open>S \<rightarrow> B\<close> (2),
  \<open>A \<rightarrow> C\<close> (1), \<open>B \<rightarrow> C\<close> (1) and \<open>C \<rightarrow> G\<close> (4), labelled by their target.  The true
  distances to the goal are 6, 5, 5, 4 and 0; the heuristic values 1, 5, 1, 1 and 0 never
  exceed them, and only the goal has heuristic 0.
\<close>

datatype demo_node = NS | NA | NB | NC | NG

fun demo_heuristic :: "demo_node \<Rightarrow> real" where
  "demo_heuristic NS = 1"
| "demo_heuristic NA = 5"
| "demo_heuristic NB = 1"
| "demo_heuristic NC = 1"
| "demo_heuristic NG = 0"

fun demo_neighbors :: "demo_node \<Rightarrow> (demo_node \<times> demo_node) list" where
  "demo_neighbors NS = [(NA, NA), (NB, NB)]"
| "demo_neighbors NA = [(NC, NC)]"
| "demo_neighbors NB = [(NC, NC)]"
| "demo_neighbors NC = [(NG, NG)]"
| "demo_neighbors NG = []"

fun demo_distance :: "demo_node \<Rightarrow> demo_node \<Rightarrow> real" where
  "demo_distance NS NA = 1"
| "demo_distance NS NB = 2"
| "demo_distance NA NC = 1"
| "demo_distance NB NC = 1"
| "demo_distance NC NG = 4"
| "demo_distance _ _ = 0"

definition demo_graph :: "(demo_node, demo_node) graph" where
  "demo_graph = \<lparr>heuristic_of = demo_heuristic, neighbors_of = demo_neighbors,
                 distance_of = demo_distance\<rparr>"

text \<open>The true distances to the goal in that graph.\<close>

fun demo_goal_distance :: "demo_node \<Rightarrow> real" where
  "demo_goal_distance NS = 6"
| "demo_goal_distance NA = 5"
| "demo_goal_distance NB = 5"
| "demo_goal_distance NC = 4"
| "demo_goal_distance NG = 0"


section \<open>Canvace.View: projection and viewport\<close>

text \<open>
  The projection matrix \<open>mat\<close> (row, column), the viewport origin \<open>(x0, y0)\<close>, which
  dragging changes, and the canvas size.
\<close>

record view =
  v_mat :: "nat \<Rightarrow> nat \<Rightarrow> real"
  v_x0 :: real
  v_y0 :: real
  v_width :: nat
  v_height :: nat

text \<open>A projected position, the array \<^verbatim>\<open>[x, y, z]\<close>; \<^verbatim>\<open>Math.round\<close> makes it integral
  (\<^verbatim>\<open>Math.round(x)\<close> is \<open>\<lfloor>x + 1/2\<rfloor>\<close>, which is \<open>round\<close>).\<close>

type_synonym position = "int \<times> int \<times> int"

definition p0 :: "position \<Rightarrow> int" where "p0 p = fst p"
definition p1 :: "position \<Rightarrow> int" where "p1 p = fst (snd p)"
definition p2 :: "position \<Rightarrow> int" where "p2 p = snd (snd p)"

definition projectElement :: "view \<Rightarrow> 'a element_desc_scheme \<Rightarrow> real \<Rightarrow> real \<Rightarrow> real \<Rightarrow> position" where
  "projectElement v element i j k =
     (round (v_mat v 0 0 * i + v_mat v 0 1 * j + v_mat v 0 2 * k + el_offset_x element),
      round (v_mat v 1 0 * i + v_mat v 1 1 * j + v_mat v 1 2 * k + el_offset_y element),
      round (v_mat v 2 0 * i + v_mat v 2 1 * j + v_mat v 2 2 * k))"


section \<open>Canvace.MultiSet\<close>

text \<open>
  The elements by their ids, in the order of insertion (the order in which the object's
  integer keys are enumerated).  The remover returned by \<^verbatim>\<open>add\<close> is the id it closes
  over.
\<close>

record 'a MultiSet =
  ms_elements :: "(nat \<times> 'a) list"
  ms_nextId :: nat
  ms_count :: int

definition MultiSet_new :: "'a MultiSet" where
  "MultiSet_new = \<lparr>ms_elements = [], ms_nextId = 0, ms_count = 0\<rparr>"

definition MultiSet_add :: "'a MultiSet \<Rightarrow> 'a \<Rightarrow> nat \<times> 'a MultiSet" where
  "MultiSet_add ms element =
     (ms_nextId ms,
      ms\<lparr>ms_elements := ms_elements ms @ [(ms_nextId ms, element)],
         ms_nextId := ms_nextId ms + 1,
         ms_count := ms_count ms + 1\<rparr>)"

text \<open>\<^verbatim>\<open>function () { if (elements.hasOwnProperty(id)) { delete elements[id]; count--; return true; } else { return false; } }\<close>\<close>

definition MultiSet_remove :: "'a MultiSet \<Rightarrow> nat \<Rightarrow> bool \<times> 'a MultiSet" where
  "MultiSet_remove ms n =
     (if n \<in> fst ` set (ms_elements ms)
      then (True, ms\<lparr>ms_elements := filter (\<lambda>(m, _). m \<noteq> n) (ms_elements ms),
                      ms_count := ms_count ms - 1\<rparr>)
      else (False, ms))"

text \<open>\<^verbatim>\<open>fastForEach(action)\<close> calls \<open>action\<close> on these elements, in this order.\<close>

definition MultiSet_fastForEach :: "'a MultiSet \<Rightarrow> 'a list" where
  "MultiSet_fastForEach ms = map snd (ms_elements ms)"


section \<open>Canvace.Buckets\<close>

text \<open>
  The animation function of a tile or entity id is an object of the frame table, shared by
  all the elements of that id; the buckets only read and write its \<^verbatim>\<open>static\<close> flag and
  call it for a frame.  It is referred to by its key.
\<close>

datatype anim_key = TileAnim nat | EntityAnim nat

text \<open>
  An entry of a bucket section.  Its field \<^verbatim>\<open>p\<close> is the very array of the \<^verbatim>\<open>Element\<close>
  that added it (\<^verbatim>\<open>updatePosition\<close> writes into that array), so the entry keeps the
  address of the element and the position is read through it.
\<close>

record entry =
  e_p :: nat
  e_width :: int
  e_height :: int
  e_static :: bool
  e_getFrame :: anim_key
  e_timeOffset :: real

record bucket =
  sections :: "int \<rightharpoonup> entry MultiSet"
  minS :: int
  maxS :: int

definition Bucket_new :: bucket where
  "Bucket_new = \<lparr>sections = Map.empty, minS = 0, maxS = 0\<rparr>"

text \<open>A remover returned by \<^verbatim>\<open>Bucket.add\<close>: the closure of the multiset of one section of
  one bucket, over one id.\<close>

record remover =
  rm_bucket :: "int \<times> int"
  rm_section :: int
  rm_id :: nat

text \<open>The fields of an \<^verbatim>\<open>Element\<close> object.\<close>

record element =
  elem_element :: element_desc
  elem_animation :: anim_key
  elem_i :: real
  elem_j :: real
  elem_k :: real
  elem_p :: position
  elem_bi :: int
  elem_bj :: int
  elem_removers :: "remover list"
  elem_removed :: bool
  elem_timeOffset :: real

text \<open>What \<^verbatim>\<open>new Element(...)\<close> evaluates to: a \<^verbatim>\<open>MockElement\<close>, whose methods do
  nothing, or an \<^verbatim>\<open>Element\<close> object, by its address.\<close>

datatype handle = Mock | ElementAt nat

text \<open>A closure stored in the \<open>eraser\<close> matrix by \<^verbatim>\<open>addTile\<close>: the bound remover of its
  element and its flag \<open>removed\<close>.\<close>

record eraser_fn =
  er_remover :: handle
  er_removed :: bool

text \<open>
  The variables of a \<^verbatim>\<open>Buckets\<close> object: the buckets by their keys
  \<^verbatim>\<open>i + ' ' + j\<close>, the \<^verbatim>\<open>Element\<close> objects by address with the next free address, the
  \<open>eraser\<close> matrix, and the \<^verbatim>\<open>static\<close> flags of the animation functions.
\<close>

record buckets_state =
  bk_buckets :: "int \<times> int \<rightharpoonup> bucket"
  bk_elements :: "nat \<rightharpoonup> element"
  bk_next :: nat
  bk_eraser :: "eraser_fn matrix"
  bk_static :: "anim_key \<Rightarrow> bool"

text \<open>A new \<^verbatim>\<open>Buckets\<close> object; an animation is static when its frame list has fewer than two
  frames.\<close>

definition Buckets_new :: "'p stage_data \<Rightarrow> buckets_state" where
  "Buckets_new d =
     \<lparr>bk_buckets = Map.empty, bk_elements = Map.empty, bk_next = 0, bk_eraser = Matrix_new,
      bk_static = (\<lambda>key. case key of
          TileAnim n \<Rightarrow> (case tiles d n of None \<Rightarrow> False | Some t \<Rightarrow> length (el_frames t) < 2)
        | EntityAnim n \<Rightarrow> (case entities d n of None \<Rightarrow> False | Some e \<Rightarrow> length (el_frames e) < 2))\<rparr>"

text \<open>\<^verbatim>\<open>getBucket(i, j)\<close> creates the bucket on first use.\<close>

definition getBucket :: "buckets_state \<Rightarrow> int \<times> int \<Rightarrow> bucket \<times> buckets_state" where
  "getBucket st key =
     (case bk_buckets st key of
        Some b \<Rightarrow> (b, st)
      | None \<Rightarrow> (Bucket_new, st\<lparr>bk_buckets := (bk_buckets st)(key \<mapsto> Bucket_new)\<rparr>))"

text \<open>\<^verbatim>\<open>Bucket.prototype.add\<close>, for an entry whose position has layer \<open>z\<close>.\<close>

definition Bucket_add :: "bucket \<Rightarrow> int \<Rightarrow> entry \<Rightarrow> nat \<times> bucket" where
  "Bucket_add b z e =
     (let ms = (case sections b z of None \<Rightarrow> MultiSet_new | Some ms \<Rightarrow> ms);
          (n, ms') = MultiSet_add ms e
      in (n, b\<lparr>minS := min (minS b) z, maxS := max (maxS b) z, sections := (sections b)(z \<mapsto> ms')\<rparr>))"

text \<open>\<^verbatim>\<open>Element.prototype.addToBucket\<close>, for the element at address \<open>a\<close>.\<close>

definition addToBucket :: "buckets_state \<Rightarrow> nat \<Rightarrow> int \<times> int \<Rightarrow> buckets_state" where
  "addToBucket st a key =
     (case bk_elements st a of
        None \<Rightarrow> st
      | Some el \<Rightarrow>
          (let (b, st1) = getBucket st key;
               (n, b') = Bucket_add b (p2 (elem_p el))
                  \<lparr>e_p = a, e_width = el_width (elem_element el),
                   e_height = el_height (elem_element el),
                   e_static = bk_static st (elem_animation el),
                   e_getFrame = elem_animation el, e_timeOffset = elem_timeOffset el\<rparr>
           in st1\<lparr>bk_buckets := (bk_buckets st1)(key \<mapsto> b'),
                   bk_elements := (bk_elements st1)(a \<mapsto>
                     el\<lparr>elem_removers := elem_removers el
                           @ [\<lparr>rm_bucket = key, rm_section = p2 (elem_p el), rm_id = n\<rparr>]\<rparr>)\<rparr>))"

text \<open>
  \<^verbatim>\<open>Element.prototype.addToBuckets\<close>; \<open>width\<close> and \<open>height\<close> are the view's.  The keys are
  (row, column), i.e. \<open>(bi, bj)\<close>.
\<close>

definition bucketKeys :: "view \<Rightarrow> int \<Rightarrow> int \<Rightarrow> position \<Rightarrow> int \<Rightarrow> int \<Rightarrow> (int \<times> int) list" where
  "bucketKeys v bi bj p w h =
     (let bi1 = (p1 p + h) div int (v_height v);
          bj1 = (p0 p + w) div int (v_width v)
      in [(bi, bj)]
         @ (if bi1 > bi then [(bi + 1, bj)] else [])
         @ (if bj1 > bj then [(bi, bj + 1)] else [])
         @ (if bi1 > bi \<and> bj1 > bj then [(bi + 1, bj + 1)] else []))"

definition addToBuckets :: "view \<Rightarrow> buckets_state \<Rightarrow> nat \<Rightarrow> buckets_state" where
  "addToBuckets v st a =
     (case bk_elements st a of
        None \<Rightarrow> st
      | Some el \<Rightarrow>
          fold (\<lambda>key s. addToBucket s a key)
            (bucketKeys v (elem_bi el) (elem_bj el) (elem_p el)
               (el_width (elem_element el)) (el_height (elem_element el))) st)"

text \<open>
  \<^verbatim>\<open>new Element(element, animation, i, j, k)\<close> at the time \<open>now\<close> of \<^verbatim>\<open>Canvace.Timing.now()\<close>.
\<close>

definition Element ::
  "view \<Rightarrow> buckets_state \<Rightarrow> 'a element_desc_scheme \<Rightarrow> anim_key \<Rightarrow> real \<Rightarrow> real \<Rightarrow> real \<Rightarrow> real
     \<Rightarrow> handle \<times> buckets_state" where
  "Element v st element animation i j k now =
     (if length (el_frames element) = 0 then (Mock, st)
      else
        (let a = bk_next st;
             p = projectElement v element i j k;
             el = \<lparr>elem_element = element_desc.truncate element, elem_animation = animation,
                   elem_i = i, elem_j = j, elem_k = k, elem_p = p,
                   elem_bi = p1 p div int (v_height v), elem_bj = p0 p div int (v_width v),
                   elem_removers = [], elem_removed = False, elem_timeOffset = now\<rparr>
         in (ElementAt a,
             addToBuckets v (st\<lparr>bk_elements := (bk_elements st)(a \<mapsto> el), bk_next := a + 1\<rparr>) a)))"

text \<open>Calling a remover of a bucket section.\<close>

definition callRemover :: "remover \<Rightarrow> buckets_state \<Rightarrow> buckets_state" where
  "callRemover r st =
     (case bk_buckets st (rm_bucket r) of
        None \<Rightarrow> st
      | Some b \<Rightarrow>
          (case sections b (rm_section r) of
             None \<Rightarrow> st
           | Some ms \<Rightarrow>
               st\<lparr>bk_buckets := (bk_buckets st)(rm_bucket r \<mapsto>
                    b\<lparr>sections := (sections b)(rm_section r \<mapsto> snd (MultiSet_remove ms (rm_id r)))\<rparr>)\<rparr>))"

text \<open>\<^verbatim>\<open>Element.prototype.remove\<close>; it returns \<^verbatim>\<open>true\<close>.\<close>

definition Element_remove :: "buckets_state \<Rightarrow> nat \<Rightarrow> buckets_state" where
  "Element_remove st a =
     (case bk_elements st a of
        None \<Rightarrow> st
      | Some el \<Rightarrow>
          (let st1 = fold callRemover (elem_removers el) st
           in st1\<lparr>bk_elements := (bk_elements st1)(a \<mapsto>
                     el\<lparr>elem_removers := [], elem_removed := True\<rparr>)\<rparr>))"

text \<open>
  Calling the bound remover \<^verbatim>\<open>element.remove.bind(element)\<close>: the result is \<^verbatim>\<open>true\<close> for
  an \<^verbatim>\<open>Element\<close> and \<^verbatim>\<open>undefined\<close> for a \<^verbatim>\<open>MockElement\<close>.
\<close>

definition callBoundRemover :: "buckets_state \<Rightarrow> handle \<Rightarrow> bool option \<times> buckets_state" where
  "callBoundRemover st h =
     (case h of Mock \<Rightarrow> (None, st) | ElementAt a \<Rightarrow> (Some True, Element_remove st a))"

text \<open>
  \<^verbatim>\<open>Element.prototype.updatePosition\<close>.  The new bucket indices \<open>bi1\<close> and \<open>bj1\<close> are
  computed from \<^verbatim>\<open>this.p\<close>, the position stored before the call.
\<close>

definition updatePosition :: "view \<Rightarrow> buckets_state \<Rightarrow> handle \<Rightarrow> real \<Rightarrow> real \<Rightarrow> real \<Rightarrow> buckets_state" where
  "updatePosition v st h i1 j1 k1 =
     (case h of
        Mock \<Rightarrow> st
      | ElementAt a \<Rightarrow>
          (case bk_elements st a of
             None \<Rightarrow> st
           | Some el \<Rightarrow>
               (if \<not> elem_removed el then
                  (let pnew = projectElement v (elem_element el) i1 j1 k1;
                       el1 = el\<lparr>elem_i := i1, elem_j := j1, elem_k := k1\<rparr>;
                       bi1 = p1 (elem_p el) div int (v_height v);
                       bj1 = p0 (elem_p el) div int (v_width v)
                   in if p2 pnew \<noteq> p2 (elem_p el) \<or> bi1 \<noteq> elem_bi el \<or> bj1 \<noteq> elem_bj el then
                        (let st1 = Element_remove (st\<lparr>bk_elements := (bk_elements st)(a \<mapsto> el1)\<rparr>) a;
                             st2 = (case bk_elements st1 a of
                                      None \<Rightarrow> st1
                                    | Some el2 \<Rightarrow>
                                        st1\<lparr>bk_elements := (bk_elements st1)(a \<mapsto>
                                          el2\<lparr>elem_removed := False, elem_p := pnew,
                                                elem_bi := bi1, elem_bj := bj1\<rparr>)\<rparr>)
                         in addToBuckets v st2 a)
                      else st\<lparr>bk_elements := (bk_elements st)(a \<mapsto> el1\<lparr>elem_p := pnew\<rparr>)\<rparr>)
                else st)))"

text \<open>
  The results of the methods that can throw: the value or the error, and the state the
  call leaves behind in either case.
\<close>

type_synonym 'a outcome = "(js_error + 'a) \<times> buckets_state"

text \<open>\<^verbatim>\<open>Element.prototype.replace\<close>; on a removed element (and on a \<^verbatim>\<open>MockElement\<close>) it
  returns \<^verbatim>\<open>undefined\<close>.\<close>

definition replace ::
  "view \<Rightarrow> 'p stage_data \<Rightarrow> buckets_state \<Rightarrow> handle \<Rightarrow> nat \<Rightarrow> real \<Rightarrow> handle option outcome" where
  "replace v d st h n now =
     (case h of
        Mock \<Rightarrow> (Inr None, st)
      | ElementAt a \<Rightarrow>
          (case bk_elements st a of
             None \<Rightarrow> (Inr None, st)
           | Some el \<Rightarrow>
               (if \<not> elem_removed el then
                  (case entities d n of
                     None \<Rightarrow> (Inl (InvalidEntityId n), st)
                   | Some entity \<Rightarrow>
                       (let st1 = Element_remove st a;
                            st2 = st1\<lparr>bk_static := (bk_static st1)(EntityAnim n := False)\<rparr>;
                            (h', st3) = Element v st2 entity (EntityAnim n)
                                          (elem_i el) (elem_j el) (elem_k el) now
                        in (Inr (Some h'), st3)))
                else (Inr None, st))))"

text \<open>
  The closure that \<^verbatim>\<open>addTile\<close> stores in the \<open>eraser\<close> matrix at \<open>(i, j, k)\<close>:
  \<^verbatim>\<open>function () { remover(); if (removed) { return false; } else { eraser.erase(i, j, k); removed = true; return true; } }\<close>
  The closure is only reachable through the matrix, so once erased its flag is never read
  again.
\<close>

definition callEraser :: "buckets_state \<Rightarrow> int \<Rightarrow> int \<Rightarrow> int \<Rightarrow> eraser_fn \<Rightarrow> bool \<times> buckets_state" where
  "callEraser st i j k f =
     (let st1 = snd (callBoundRemover st (er_remover f))
      in if er_removed f then (False, st1)
         else (True, st1\<lparr>bk_eraser := snd (Matrix_erase (bk_eraser st1) i j k)\<rparr>))"

text \<open>
  \<^verbatim>\<open>addTile(id, i, j, k)\<close>.  It returns the bound remover for a tile that is not mutable;
  for a mutable tile the function ends without a \<^verbatim>\<open>return\<close>, i.e. with \<^verbatim>\<open>undefined\<close>.
\<close>

definition addTile ::
  "view \<Rightarrow> 'p stage_data \<Rightarrow> buckets_state \<Rightarrow> nat \<Rightarrow> int \<Rightarrow> int \<Rightarrow> int \<Rightarrow> real \<Rightarrow> handle option outcome" where
  "addTile v d st n i j k now =
     (case tiles d n of
        None \<Rightarrow> (Inl (InvalidTileId n), st)
      | Some tile \<Rightarrow>
          (let st1 = st\<lparr>bk_static := (bk_static st)(TileAnim n :=
                          (bk_static st (TileAnim n) \<and> \<not> mutable tile))\<rparr>;
               (h, st2) = Element v st1 tile (TileAnim n)
                            (real_of_int i) (real_of_int j) (real_of_int k) now
           in if mutable tile then
                (Inr None,
                 st2\<lparr>bk_eraser := Matrix_put (bk_eraser st2) i j k
                                     \<lparr>er_remover = h, er_removed = False\<rparr>\<rparr>)
              else (Inr (Some h), st2)))"

definition addEntity ::
  "view \<Rightarrow> 'p stage_data \<Rightarrow> buckets_state \<Rightarrow> nat \<Rightarrow> real \<Rightarrow> real \<Rightarrow> real \<Rightarrow> real \<Rightarrow> handle outcome" where
  "addEntity v d st n i j k now =
     (case entities d n of
        None \<Rightarrow> (Inl (InvalidEntityId n), st)
      | Some entity \<Rightarrow>
          (let st1 = st\<lparr>bk_static := (bk_static st)(EntityAnim n := False)\<rparr>;
               (h, st2) = Element v st1 entity (EntityAnim n) i j k now
           in (Inr h, st2)))"

definition removeTile :: "buckets_state \<Rightarrow> int \<Rightarrow> int \<Rightarrow> int \<Rightarrow> bool \<times> buckets_state" where
  "removeTile st i j k =
     (case Matrix_get (bk_eraser st) i j k of
        Some f \<Rightarrow> callEraser st i j k f
      | None \<Rightarrow> (False, st))"

text \<open>\<^verbatim>\<open>replaceTile\<close>: \<^verbatim>\<open>if (eraser.has(i, j, k)) { eraser.get(i, j, k)(); return addTile(newTileId, i, j, k); }\<close>\<close>

definition replaceTile ::
  "view \<Rightarrow> 'p stage_data \<Rightarrow> buckets_state \<Rightarrow> int \<Rightarrow> int \<Rightarrow> int \<Rightarrow> nat \<Rightarrow> real \<Rightarrow> handle option outcome" where
  "replaceTile v d st i j k newTileId now =
     (case Matrix_get (bk_eraser st) i j k of
        Some f \<Rightarrow> addTile v d (snd (callEraser st i j k f)) newTileId i j k now
      | None \<Rightarrow> (Inr None, st))"

text \<open>
  \<^verbatim>\<open>forEachElement(action)\<close> at the time \<open>now\<close>.  Each call of \<open>action\<close> is recorded with
  the array \<^verbatim>\<open>p\<close> it read (by the address of its element), the two coordinates passed,
  and the animation function with the time it is called on for the frame id, the third
  argument.
\<close>

record emission =
  em_p :: nat
  em_x :: int
  em_y :: int
  em_getFrame :: anim_key
  em_time :: real

text \<open>The test of \<^verbatim>\<open>yieldElement\<close>, for the origin of the view.\<close>

definition inViewport :: "view \<Rightarrow> position \<Rightarrow> int \<Rightarrow> int \<Rightarrow> bool" where
  "inViewport v p w h =
     (real_of_int (p0 p) < - v_x0 v + real (v_width v)
      \<and> real_of_int (p1 p) < - v_y0 v + real (v_height v)
      \<and> real_of_int (p0 p + w) \<ge> - v_x0 v
      \<and> real_of_int (p1 p + h) \<ge> - v_y0 v)"

definition yieldElement :: "view \<Rightarrow> buckets_state \<Rightarrow> real \<Rightarrow> entry \<Rightarrow> emission list" where
  "yieldElement v st timestamp e =
     (case bk_elements st (e_p e) of
        None \<Rightarrow> []
      | Some el \<Rightarrow>
          (if inViewport v (elem_p el) (e_width e) (e_height e)
           then [\<lparr>em_p = e_p e, em_x = p0 (elem_p el), em_y = p1 (elem_p el),
                  em_getFrame = e_getFrame e, em_time = timestamp - e_timeOffset e\<rparr>]
           else []))"

definition enumerateSection :: "bucket \<Rightarrow> int \<Rightarrow> entry list" where
  "enumerateSection b s =
     (case sections b s of None \<Rightarrow> [] | Some ms \<Rightarrow> MultiSet_fastForEach ms)"

text \<open>The keys of the four buckets that \<^verbatim>\<open>forEachElement\<close> queries.\<close>

definition viewportKeys :: "view \<Rightarrow> (int \<times> int) list" where
  "viewportKeys v =
     (let i = \<lfloor>- v_y0 v / real (v_height v)\<rfloor>; j = \<lfloor>- v_x0 v / real (v_width v)\<rfloor>
      in [(i, j), (i, j + 1), (i + 1, j), (i + 1, j + 1)])"

definition forEachElement :: "view \<Rightarrow> buckets_state \<Rightarrow> real \<Rightarrow> emission list \<times> buckets_state" where
  "forEachElement v st now =
     (let i = \<lfloor>- v_y0 v / real (v_height v)\<rfloor>;
          j = \<lfloor>- v_x0 v / real (v_width v)\<rfloor>;
          (bucket1, st1) = getBucket st (i, j);
          (bucket2, st2) = getBucket st1 (i, j + 1);
          (bucket3, st3) = getBucket st2 (i + 1, j);
          (bucket4, st4) = getBucket st3 (i + 1, j + 1);
          lo = min (min (minS bucket1) (minS bucket2)) (min (minS bucket3) (minS bucket4));
          hi = max (max (maxS bucket1) (maxS bucket2)) (max (maxS bucket3) (maxS bucket4))
      in (concat (map (\<lambda>s. concat (map (\<lambda>b. concat (map (yieldElement v st4 now)
                                                      (enumerateSection b s)))
                                      [bucket1, bucket2, bucket3, bucket4]))
                   [lo..hi]),
          st4))"

text \<open>How many times \<open>action\<close> was called for the element at address \<open>a\<close>.\<close>

definition invocations :: "nat \<Rightarrow> emission list \<Rightarrow> nat" where
  "invocations a out = length (filter (\<lambda>e. em_p e = a) out)"

subsection \<open>Registration of an element\<close>

text \<open>The entries of section \<open>s\<close> of the bucket \<open>key\<close>, and the layer range of a bucket
  (those of a new bucket if there is none yet).\<close>

definition sectionEntries :: "buckets_state \<Rightarrow> int \<times> int \<Rightarrow> int \<Rightarrow> entry list" where
  "sectionEntries st key s =
     (case bk_buckets st key of None \<Rightarrow> [] | Some b \<Rightarrow> enumerateSection b s)"

definition bucketMinS :: "buckets_state \<Rightarrow> int \<times> int \<Rightarrow> int" where
  "bucketMinS st key = (case bk_buckets st key of None \<Rightarrow> 0 | Some b \<Rightarrow> minS b)"

definition bucketMaxS :: "buckets_state \<Rightarrow> int \<times> int \<Rightarrow> int" where
  "bucketMaxS st key = (case bk_buckets st key of None \<Rightarrow> 0 | Some b \<Rightarrow> maxS b)"

text \<open>The range of layers that \<^verbatim>\<open>forEachElement\<close> enumerates: \<open>minS\<close> and \<open>maxS\<close> over the
  four buckets.\<close>

definition viewLo :: "view \<Rightarrow> buckets_state \<Rightarrow> int" where
  "viewLo v st = (case viewportKeys v of
      [k1, k2, k3, k4] \<Rightarrow> min (min (bucketMinS st k1) (bucketMinS st k2)) (min (bucketMinS st k3) (bucketMinS st k4))
    | _ \<Rightarrow> 0)"

definition viewHi :: "view \<Rightarrow> buckets_state \<Rightarrow> int" where
  "viewHi v st = (case viewportKeys v of
      [k1, k2, k3, k4] \<Rightarrow> max (max (bucketMaxS st k1) (bucketMaxS st k2)) (max (bucketMaxS st k3) (bucketMaxS st k4))
    | _ \<Rightarrow> 0)"

text \<open>The entry that \<^verbatim>\<open>addToBucket\<close> adds for the element \<open>el\<close> at address \<open>a\<close>.\<close>

definition newEntry :: "buckets_state \<Rightarrow> element \<Rightarrow> nat \<Rightarrow> entry" where
  "newEntry st el a = \<lparr>e_p = a, e_width = el_width (elem_element el),
                   e_height = el_height (elem_element el),
                   e_static = bk_static st (elem_animation el),
                   e_getFrame = elem_animation el, e_timeOffset = elem_timeOffset el\<rparr>"

text \<open>
  The element at address \<open>a\<close> is registered as \<^verbatim>\<open>addToBuckets\<close> registers an element at
  its current position: one entry, of the element's size, in the section of its layer in
  each of the buckets \<^verbatim>\<open>addToBuckets\<close> picks for the bucket of its origin, none
  elsewhere, and each of these buckets has the layer in its range.  This is the state of an
  element after \<^verbatim>\<open>new Element\<close>.
\<close>

definition placed :: "view \<Rightarrow> buckets_state \<Rightarrow> nat \<Rightarrow> bool" where
  "placed v st a =
     (case bk_elements st a of
        None \<Rightarrow> False
      | Some el \<Rightarrow>
          (let p = elem_p el; w = el_width (elem_element el); h = el_height (elem_element el);
               keys = bucketKeys v (p1 p div int (v_height v)) (p0 p div int (v_width v)) p w h
           in (\<forall>key s. map (\<lambda>e. (e_width e, e_height e))
                           (filter (\<lambda>e. e_p e = a) (sectionEntries st key s))
                        = (if key \<in> set keys \<and> s = p2 p then [(w, h)] else []))
              \<and> (\<forall>key \<in> set keys. bucketMinS st key \<le> p2 p \<and> p2 p \<le> bucketMaxS st key)))"

text \<open>No entry refers to an address that is still free.\<close>

definition fresh :: "buckets_state \<Rightarrow> bool" where
  "fresh st = (\<forall>key s. \<forall>e \<in> set (sectionEntries st key s). e_p e < bk_next st)"

text \<open>
  The bounding box \<open>[x, x + w] \<times> [y, y + h]\<close> of a projected position overlaps the bucket
  in row \<open>r\<close> and column \<open>c\<close>, which covers \<open>[c W, (c + 1) W) \<times> [r H, (r + 1) H)\<close> for
  the bucket size \<open>W \<times> H\<close> (the canvas size).
\<close>

definition overlapsBucket :: "view \<Rightarrow> position \<Rightarrow> int \<Rightarrow> int \<Rightarrow> int \<times> int \<Rightarrow> bool" where
  "overlapsBucket v p w h key =
     (case key of (r, c) \<Rightarrow>
        p1 p div int (v_height v) \<le> r \<and> r \<le> (p1 p + h) div int (v_height v)
      \<and> p0 p div int (v_width v) \<le> c \<and> c \<le> (p0 p + w) div int (v_width v))"


section \<open>Canvace.TileMap: placing tiles\<close>

text \<open>The variables of a \<^verbatim>\<open>TileMap\<close> object: its matrix, and the \<^verbatim>\<open>Buckets\<close> object it
  updates.\<close>

record tilemap =
  tm_matrix :: "cell matrix"
  tm_buckets :: buckets_state

text \<open>
  The cells a tile of the given layout covers when its reference cell is \<open>(i, j)\<close>, in the
  order of the two nested loops
  \<^verbatim>\<open>for (i1 = i - layout.ref.i; i1 < i - layout.ref.i + layout.span.i; i1++) for (j1 = j - layout.ref.j; j1 < j - layout.ref.j + layout.span.j; j1++)\<close>.
\<close>

definition coveredCells :: "layout \<Rightarrow> int \<Rightarrow> int \<Rightarrow> (int \<times> int) list" where
  "coveredCells lay i j =
     concat (map (\<lambda>i1. map (\<lambda>j1. (i1, j1)) [j - ref_j lay..j - ref_j lay + span_j lay - 1])
               [i - ref_i lay..i - ref_i lay + span_i lay - 1])"

text \<open>
  The constructor's loop over \<^verbatim>\<open>data.map\<close>, for one entry: the tile \<open>n\<close> at \<open>(i, j, k)\<close>.
  \<open>now\<close> is the clock reading of its \<^verbatim>\<open>addTile\<close>.
\<close>

definition placeInitial ::
  "view \<Rightarrow> 'p stage_data \<Rightarrow> int \<times> int \<times> int \<times> nat \<times> real \<Rightarrow> tilemap \<Rightarrow> js_error + tilemap" where
  "placeInitial v d entry tm =
     (case entry of (k, i, j, n, now) \<Rightarrow>
        (case tiles d n of
           None \<Rightarrow> Inl TypeError
         | Some tile \<Rightarrow>
             (let m1 = fold (\<lambda>(i1, j1) m. Matrix_put m i1 j1 k (RefCell i j))
                         (coveredCells (tile_layout tile) i j) (tm_matrix tm);
                  m2 = Matrix_put m1 i j k (TileId n)
              in case addTile v d (tm_buckets tm) n i j k now of
                   (Inl e, _) \<Rightarrow> Inl e
                 | (Inr _, b) \<Rightarrow> Inr \<lparr>tm_matrix = m2, tm_buckets = b\<rparr>)))"

text \<open>\<^verbatim>\<open>new Canvace.TileMap(data, buckets)\<close> for the entries of \<^verbatim>\<open>data.map\<close> in the order of
  enumeration.\<close>

definition TileMap_new ::
  "view \<Rightarrow> 'p stage_data \<Rightarrow> buckets_state \<Rightarrow> (int \<times> int \<times> int \<times> nat \<times> real) list \<Rightarrow> js_error + tilemap" where
  "TileMap_new v d b entries =
     foldE (placeInitial v d) entries \<lparr>tm_matrix = Matrix_new, tm_buckets = b\<rparr>"

text \<open>\<^verbatim>\<open>function canClear(i, j) { ...; return data.tiles[id].mutable; }\<close>\<close>

definition canClear :: "'p stage_data \<Rightarrow> cell matrix \<Rightarrow> int \<Rightarrow> int \<Rightarrow> int \<Rightarrow> js_error + bool" where
  "canClear d m k i j = (case tileAt d m i j k of Inl e \<Rightarrow> Inl e | Inr t \<Rightarrow> Inr (mutable t))"

text \<open>The first pair of loops of \<^verbatim>\<open>putAt\<close>: \<open>Inr False\<close> is the \<^verbatim>\<open>return false\<close>.\<close>

fun canClearAll :: "'p stage_data \<Rightarrow> cell matrix \<Rightarrow> int \<Rightarrow> (int \<times> int) list \<Rightarrow> js_error + bool" where
  "canClearAll d m k [] = Inr True"
| "canClearAll d m k ((i1, j1) # cells) =
     (case canClear d m k i1 j1 of
        Inl e \<Rightarrow> Inl e
      | Inr False \<Rightarrow> Inr False
      | Inr True \<Rightarrow> canClearAll d m k cells)"

text \<open>
  \<^verbatim>\<open>function clear(i, j) { var value = matrix.get(i, j, k); if (typeof value !== 'number') { var coordinates = value.split(' '); i = coordinates[0]; j = coordinates[1]; } if (buckets.removeTile(i, j, k)) { matrix.erase(i, j, k); return true; } else { return false; } }\<close>
\<close>

definition clear :: "tilemap \<Rightarrow> int \<Rightarrow> int \<Rightarrow> int \<Rightarrow> js_error + bool \<times> tilemap" where
  "clear tm k i j =
     (case Matrix_get (tm_matrix tm) i j k of
        None \<Rightarrow> Inl TypeError
      | Some c \<Rightarrow>
          (let (i', j') = (case c of TileId _ \<Rightarrow> (i, j) | RefCell ri rj \<Rightarrow> (ri, rj));
               (removed, b) = removeTile (tm_buckets tm) i' j' k
           in if removed
              then Inr (True, \<lparr>tm_matrix = snd (Matrix_erase (tm_matrix tm) i' j' k), tm_buckets = b\<rparr>)
              else Inr (False, tm\<lparr>tm_buckets := b\<rparr>)))"

text \<open>
  The second pair of loops, for a tile placed at \<open>(i, j)\<close>:
  \<^verbatim>\<open>if (clear(i1, j1, k)) { matrix.put(i1, j1, k, i + ' ' + j); } else { return false; }\<close>
  The result carries the map as the loop leaves it, also when \<^verbatim>\<open>clear\<close> throws.
\<close>

fun clearAll :: "tilemap \<Rightarrow> int \<Rightarrow> int \<Rightarrow> int \<Rightarrow> (int \<times> int) list \<Rightarrow> (js_error + bool) \<times> tilemap" where
  "clearAll tm k i j [] = (Inr True, tm)"
| "clearAll tm k i j ((i1, j1) # cells) =
     (case clear tm k i1 j1 of
        Inl e \<Rightarrow> (Inl e, tm)
      | Inr (False, tm1) \<Rightarrow> (Inr False, tm1)
      | Inr (True, tm1) \<Rightarrow>
          clearAll (tm1\<lparr>tm_matrix := Matrix_put (tm_matrix tm1) i1 j1 k (RefCell i j)\<rparr>) k i j cells)"

text \<open>\<^verbatim>\<open>putAt(i, j, k, id)\<close>: the returned boolean or the error, and the map it leaves.\<close>

definition putAt ::
  "view \<Rightarrow> 'p stage_data \<Rightarrow> tilemap \<Rightarrow> int \<Rightarrow> int \<Rightarrow> int \<Rightarrow> nat \<Rightarrow> real \<Rightarrow> (js_error + bool) \<times> tilemap" where
  "putAt v d tm i j k n now =
     (case tiles d n of
        None \<Rightarrow> (Inl (InvalidTileId n), tm)
      | Some tile \<Rightarrow>
          (let cells = coveredCells (tile_layout tile) i j
           in case canClearAll d (tm_matrix tm) k cells of
                Inl e \<Rightarrow> (Inl e, tm)
              | Inr False \<Rightarrow> (Inr False, tm)
              | Inr True \<Rightarrow>
                  (case clearAll tm k i j cells of
                     (Inl e, tm1) \<Rightarrow> (Inl e, tm1)
                   | (Inr False, tm1) \<Rightarrow> (Inr False, tm1)
                   | (Inr True, tm1) \<Rightarrow>
                       (let m = Matrix_put (tm_matrix tm1) i j k (TileId n)
                        in case addTile v d (tm_buckets tm1) n i j k now of
                             (Inl e, b) \<Rightarrow> (Inl e, \<lparr>tm_matrix = m, tm_buckets = b\<rparr>)
                           | (Inr _, b) \<Rightarrow> (Inr True, \<lparr>tm_matrix = m, tm_buckets = b\<rparr>)))))"


section \<open>A small stage\<close>

text \<open>
  A canvas of 100 by 100 pixels under the identity projection, so that the projected
  position of \<open>(i, j, k)\<close> is \<open>(i, j, k)\<close> plus the element's offset.  Tile 1 is a fixed
  single-cell tile, tile 2 a fixed tile spanning the two cells \<open>(i, j)\<close> and \<open>(i, j + 1)\<close>,
  tile 3 a mutable single-cell tile.  Entity 1 is 10 by 10 pixels, entity 2 is 150 pixels
  wide.
\<close>

definition stage_view :: "real \<Rightarrow> real \<Rightarrow> view" where
  "stage_view x y = \<lparr>v_mat = (\<lambda>r c. if r = c then 1 else 0), v_x0 = x, v_y0 = y,
                      v_width = 100, v_height = 100\<rparr>"

definition stage_data :: "unit stage_data" where
  "stage_data =
     \<lparr>tiles = [1 \<mapsto> demo_tile,
               2 \<mapsto> demo_tile\<lparr>tile_layout := \<lparr>span_i = 1, span_j = 2, ref_i = 0, ref_j = 0\<rparr>\<rparr>,
               3 \<mapsto> demo_tile\<lparr>mutable := True\<rparr>],
      entities = [1 \<mapsto> \<lparr>el_frames = [\<lparr>fid = 7, duration = None\<rparr>], el_width = 10, el_height = 10,
                         el_offset_x = 0, el_offset_y = 0\<rparr>,
                  2 \<mapsto> \<lparr>el_frames = [\<lparr>fid = 8, duration = None\<rparr>], el_width = 150, el_height = 10,
                         el_offset_x = 0, el_offset_y = 0\<rparr>]\<rparr>"

definition stage_buckets :: buckets_state where
  "stage_buckets = Buckets_new stage_data"


text \<open>Entity 1 added at \<open>(0, 0, 0)\<close>, then moved to \<open>(250, 0, 0)\<close>, then moved there once more.\<close>

definition entity_added :: buckets_state where
  "entity_added = snd (addEntity (stage_view 0 0) stage_data stage_buckets 1 0 0 0 0)"

definition entity_moved :: buckets_state where
  "entity_moved = updatePosition (stage_view 0 0) entity_added (ElementAt 0) 250 0 0"

definition entity_moved_again :: buckets_state where
  "entity_moved_again = updatePosition (stage_view 0 0) entity_moved (ElementAt 0) 250 0 0"

text \<open>The buckets in which the element at an address has remover closures.\<close>

definition registeredBuckets :: "buckets_state \<Rightarrow> nat \<Rightarrow> (int \<times> int) list option" where
  "registeredBuckets st a = map_option (\<lambda>el. map rm_bucket (elem_removers el)) (bk_elements st a)"

definition projectedPosition :: "buckets_state \<Rightarrow> nat \<Rightarrow> position option" where
  "projectedPosition st a = map_option elem_p (bk_elements st a)"

text \<open>The wide entity 2 added at \<open>(60, 0, 0)\<close>; entity 1 added at \<open>(95, 0, 0)\<close>, across the
  boundary of the bucket columns 0 and 1.\<close>

definition wide_added :: buckets_state where
  "wide_added = snd (addEntity (stage_view 0 0) stage_data stage_buckets 2 60 0 0 0)"

definition straddling_added :: buckets_state where
  "straddling_added = snd (addEntity (stage_view 0 0) stage_data stage_buckets 1 95 0 0 0)"

text \<open>The mutable tile 3 and the fixed tile 1 added at \<open>(0, 0, 0)\<close> to new buckets.\<close>

definition mutable_tile_added :: "handle option outcome" where
  "mutable_tile_added = addTile (stage_view 0 0) stage_data stage_buckets 3 0 0 0 0"

definition fixed_tile_added :: "handle option outcome" where
  "fixed_tile_added = addTile (stage_view 0 0) stage_data stage_buckets 1 0 0 0 0"

text \<open>The tile map whose only tile is the fixed tile 1 in cell \<open>(0, 1)\<close> of layer 0.\<close>

definition fixed_tile_map :: "js_error + tilemap" where
  "fixed_tile_map = TileMap_new (stage_view 0 0) stage_data stage_buckets [(0, 0, 1, 1, 0)]"

text \<open>Replacing the mutable tile at \<open>(0, 0, 0)\<close> by the unknown tile 99.\<close>

definition replaced_by_unknown :: "handle option outcome" where
  "replaced_by_unknown = replaceTile (stage_view 0 0) stage_data (snd mutable_tile_added) 0 0 0 99 0"


section \<open>Consistency of the buckets\<close>

text \<open>The elements of section \<open>s\<close> of the bucket \<open>key\<close> with their ids, and the next id of
  that multiset (those of a new bucket and a new multiset if there is none yet).\<close>

definition sectionPairs :: "buckets_state \<Rightarrow> int \<times> int \<Rightarrow> int \<Rightarrow> (nat \<times> entry) list" where
  "sectionPairs st key s =
     (case bk_buckets st key of
        None \<Rightarrow> []
      | Some b \<Rightarrow> (case sections b s of None \<Rightarrow> [] | Some ms \<Rightarrow> ms_elements ms))"

definition sectionNextId :: "buckets_state \<Rightarrow> int \<times> int \<Rightarrow> int \<Rightarrow> nat" where
  "sectionNextId st key s =
     (case bk_buckets st key of
        None \<Rightarrow> 0
      | Some b \<Rightarrow> (case sections b s of None \<Rightarrow> 0 | Some ms \<Rightarrow> ms_nextId ms))"

text \<open>The ids under which the element at address \<open>a\<close> has entries in a section, and the ids
  its removers for that section close over.\<close>

definition entryIds :: "buckets_state \<Rightarrow> nat \<Rightarrow> int \<times> int \<Rightarrow> int \<Rightarrow> nat list" where
  "entryIds st a key s = map fst (filter (\<lambda>x. e_p (snd x) = a) (sectionPairs st key s))"

definition removerIds :: "element \<Rightarrow> int \<times> int \<Rightarrow> int \<Rightarrow> nat list" where
  "removerIds el key s =
     map rm_id (filter (\<lambda>r. rm_bucket r = key \<and> rm_section r = s) (elem_removers el))"

text \<open>
  The invariant of a \<^verbatim>\<open>Buckets\<close> object: addresses from \<open>bk_next\<close> on are free; the ids of
  a multiset are distinct and below its next id; every entry belongs to an element; and
  the removers of an element are the closures for exactly its entries.
\<close>

definition consistent :: "buckets_state \<Rightarrow> bool" where
  "consistent st =
     ((\<forall>a. bk_next st \<le> a \<longrightarrow> bk_elements st a = None)
      \<and> (\<forall>key s x. x \<in> set (sectionPairs st key s)
            \<longrightarrow> fst x < sectionNextId st key s \<and> bk_elements st (e_p (snd x)) \<noteq> None)
      \<and> (\<forall>key s. distinct (map fst (sectionPairs st key s)))
      \<and> (\<forall>a el key s. bk_elements st a = Some el \<longrightarrow> entryIds st a key s = removerIds el key s))"

text \<open>
  A step from \<open>st\<close> to \<open>st'\<close> leaves the element at address \<open>a\<close> alone: the object and its
  entries are the same, and no bucket has lost a layer of its range.
\<close>

definition keeps :: "nat \<Rightarrow> buckets_state \<Rightarrow> buckets_state \<Rightarrow> bool" where
  "keeps a st st' =
     (bk_elements st' a = bk_elements st a
      \<and> (\<forall>key s. filter (\<lambda>e. e_p e = a) (sectionEntries st' key s)
                  = filter (\<lambda>e. e_p e = a) (sectionEntries st key s))
      \<and> (\<forall>key. bucketMinS st' key \<le> bucketMinS st key \<and> bucketMaxS st key \<le> bucketMaxS st' key))"

text \<open>
  The calls on a \<^verbatim>\<open>Buckets\<close> object and on the elements it returned, each with the clock
  reading it makes (if any), and the state a call leaves behind.
\<close>

datatype call =
    AddTile nat int int int real
  | AddEntity nat real real real real
  | RemoveTile int int int
  | ReplaceTile int int int nat real
  | Remove handle
  | UpdatePosition handle real real real
  | Replace handle nat real
  | ForEachElement real

fun perform :: "view \<Rightarrow> 'p stage_data \<Rightarrow> call \<Rightarrow> buckets_state \<Rightarrow> buckets_state" where
  "perform v d (AddTile n i j k now) st = snd (addTile v d st n i j k now)"
| "perform v d (AddEntity n i j k now) st = snd (addEntity v d st n i j k now)"
| "perform v d (RemoveTile i j k) st = snd (removeTile st i j k)"
| "perform v d (ReplaceTile i j k n now) st = snd (replaceTile v d st i j k n now)"
| "perform v d (Remove h) st = snd (callBoundRemover st h)"
| "perform v d (UpdatePosition h i j k) st = updatePosition v st h i j k"
| "perform v d (Replace h n now) st = snd (replace v d st h n now)"
| "perform v d (ForEachElement now) st = snd (forEachElement v st now)"

text \<open>Whether a call acts on the element at address \<open>a\<close>: directly, or through the eraser
  closure of a mutable tile.\<close>

fun touches :: "buckets_state \<Rightarrow> call \<Rightarrow> nat \<Rightarrow> bool" where
  "touches st (AddTile n i j k now) a = False"
| "touches st (AddEntity n i j k now) a = False"
| "touches st (RemoveTile i j k) a =
     (map_option er_remover (Matrix_get (bk_eraser st) i j k) = Some (ElementAt a))"
| "touches st (ReplaceTile i j k n now) a =
     (map_option er_remover (Matrix_get (bk_eraser st) i j k) = Some (ElementAt a))"
| "touches st (Remove h) a = (h = ElementAt a)"
| "touches st (UpdatePosition h i j k) a = (h = ElementAt a)"
| "touches st (Replace h n now) a = (h = ElementAt a)"
| "touches st (ForEachElement now) a = False"

text \<open>The states of a \<^verbatim>\<open>Buckets\<close> object: that of the constructor, and those after any
  number of calls.\<close>

inductive reachable :: "view \<Rightarrow> 'p stage_data \<Rightarrow> buckets_state \<Rightarrow> bool" for v d where
  constructed: "reachable v d (Buckets_new d)"
| called: "reachable v d st \<Longrightarrow> reachable v d (perform v d c st)"


section \<open>Properties of the animation resolver\<close>

lemma gcd_js_eq_gcd: "gcd_js a b = gcd a b"
proof (induction a b rule: gcd_js.induct)
  case (1 a b)
  show ?case
  proof (cases "b = 0")
    case True
    then show ?thesis by (subst gcd_js.simps) simp
  next
    case False
    then have "gcd_js a b = gcd_js b (a mod b)" by (subst gcd_js.simps) simp
    also from 1 False have "\<dots> = gcd b (a mod b)" by simp
    also have "\<dots> = gcd a b" by (metis gcd.commute gcd_red_nat)
    finally show ?thesis .
  qed
qed

lemma scan_frame_simps:
  "duration f = None \<Longrightarrow> scan_frame f (pu, fd, lp, lf) = (pu, fd, False, Some (fid f))"
  "duration f = Some d \<Longrightarrow> scan_frame f (pu, fd, lp, lf) = (gcd_js pu d, fd + d, lp, lf)"
  by (simp_all add: scan_frame_def)

lemma fold_scan_frame_dvd:
  assumes "fold scan_frame fs (pu, fd, lp, lf) = (pu', fd', lp', lf')" and "pu dvd fd"
  shows "pu' dvd fd'"
  using assms
proof (induction fs arbitrary: pu fd lp lf)
  case Nil
  then show ?case by simp
next
  case (Cons f fs)
  show ?case
  proof (cases "duration f")
    case None
    with Cons.prems have "fold scan_frame fs (pu, fd, False, Some (fid f)) = (pu', fd', lp', lf')"
      by (simp add: scan_frame_simps)
    from Cons.IH [OF this Cons.prems(2)] show ?thesis .
  next
    case (Some d)
    with Cons.prems have step: "fold scan_frame fs (gcd pu d, fd + d, lp, lf) = (pu', fd', lp', lf')"
      by (simp add: scan_frame_simps gcd_js_eq_gcd)
    have "gcd pu d dvd fd + d"
      using Cons.prems(2) by (meson dvd_add dvd_trans gcd_dvd1 gcd_dvd2)
    from Cons.IH [OF step this] show ?thesis .
  qed
qed

lemma fold_scan_frame_looping:
  assumes "fold scan_frame fs (pu, fd, lp, lf) = (pu', fd', lp', lf')"
  shows "lp' = (lp \<and> (\<forall>f \<in> set fs. duration f \<noteq> None))"
  using assms
proof (induction fs arbitrary: pu fd lp lf)
  case Nil
  then show ?case by simp
next
  case (Cons f fs)
  show ?case
  proof (cases "duration f")
    case None
    with Cons.prems have "fold scan_frame fs (pu, fd, False, Some (fid f)) = (pu', fd', lp', lf')"
      by (simp add: scan_frame_simps)
    from Cons.IH [OF this] None show ?thesis by simp
  next
    case (Some d)
    with Cons.prems have "fold scan_frame fs (gcd_js pu d, fd + d, lp, lf) = (pu', fd', lp', lf')"
      by (simp add: scan_frame_simps)
    from Cons.IH [OF this] Some show ?thesis by auto
  qed
qed

lemma synchronize_fields:
  assumes "synchronize a period = Some (Inr a')"
  shows "partialUnit a' = partialUnit a \<and> fullDuration a' = fullDuration a
         \<and> looping a' = looping a \<and> unit a' = gcd (partialUnit a) period"
  using assms
  by (auto simp: synchronize_def Let_def gcd_js_eq_gcd split: option.splits sum.splits)

lemma Animation_fields:
  assumes "Animation fs = Some (Inr (TableAnimation a))"
  shows "partialUnit a dvd fullDuration a \<and> unit a dvd partialUnit a
         \<and> looping a = (\<forall>f \<in> set fs. duration f \<noteq> None)"
proof -
  obtain pu fd lp lf where sc: "scan_frames fs = (pu, fd, lp, lf)"
    by (metis prod_cases4)
  let ?a0 = "\<lparr>frames = fs, partialUnit = pu, fullDuration = fd, looping = lp,
              lastFrameId = lf, table = Map.empty, unit = 0\<rparr>"
  from assms sc have syn: "synchronize ?a0 pu = Some (Inr a)"
    by (auto simp: Animation_def split: if_splits option.splits sum.splits)
  from synchronize_fields [OF syn]
  have f: "partialUnit a = pu" "fullDuration a = fd" "looping a = lp" "unit a = gcd pu pu"
    by simp_all
  from sc have "pu dvd fd"
    using fold_scan_frame_dvd [of fs 0 0 True None pu fd lp lf] by (simp add: scan_frames_def)
  moreover from sc have "lp = (\<forall>f \<in> set fs. duration f \<noteq> None)"
    using fold_scan_frame_looping [of fs 0 0 True None pu fd lp lf] by (simp add: scan_frames_def)
  ultimately show ?thesis using f by simp
qed

lemma registered_invariant:
  assumes "registered fs a"
  shows "partialUnit a dvd fullDuration a \<and> unit a dvd partialUnit a
         \<and> looping a = (\<forall>f \<in> set fs. duration f \<noteq> None)"
  using assms
proof (induction rule: registered.induct)
  case (registered_new fs a)
  then show ?case by (rule Animation_fields)
next
  case (registered_sync fs a period a')
  from synchronize_fields [OF registered_sync.hyps(2)] registered_sync.IH
  show ?case by simp
qed


lemma js_rem_nonneg: 
  assumes "0 \<le> t" "0 < T"
  shows "js_rem t T = t - T * of_int \<lfloor>t / T\<rfloor>"
  using assms by (simp add: js_rem_def)

lemma js_rem_add_period:
  assumes "0 \<le> t" "0 < T"
  shows "js_rem (t + T) T = js_rem t T"
proof -
  have "(t + T) / T = t / T + 1" using assms by (simp add: field_simps)
  then have "\<lfloor>(t + T) / T\<rfloor> = \<lfloor>t / T\<rfloor> + 1" by simp
  moreover have "0 \<le> t + T" using assms by simp
  ultimately show ?thesis using assms
    by (simp add: js_rem_nonneg algebra_simps)
qed

lemma floor_js_rem_step:
  fixes U T k :: nat and t :: real
  assumes U: "0 < U" and T: "0 < T" and dvd: "U dvd T"
    and lo: "real k * real U \<le> t" and hi: "t < real (k + 1) * real U"
  shows "\<lfloor>js_rem t (real T) / real U\<rfloor> = int (k mod (T div U))"
proof -
  obtain m where m: "T = U * m" using dvd by (auto simp: dvd_def)
  with T have mpos: "0 < m" by (cases m) auto
  have t0: "0 \<le> t" using lo by (meson mult_nonneg_nonneg of_nat_0_le_iff order_trans)
  have fl: "\<lfloor>t / real U\<rfloor> = int k"
  proof (rule floor_unique)
    show "of_int (int k) \<le> t / real U" using lo U by (simp add: field_simps)
    show "t / real U < of_int (int k) + 1" using hi U by (simp add: field_simps)
  qed
  have "t / real T = (t / real U) / real_of_int (int m)" using m U by simp
  then have "\<lfloor>t / real T\<rfloor> = \<lfloor>(t / real U) / real_of_int (int m)\<rfloor>" by (rule arg_cong)
  also have "\<dots> = \<lfloor>t / real U\<rfloor> div int m"
    by (rule floor_divide_real_eq_div) simp
  finally have "\<lfloor>t / real T\<rfloor> = \<lfloor>t / real U\<rfloor> div int m" .
  then have flT: "\<lfloor>t / real T\<rfloor> = int (k div m)" using fl by (simp add: zdiv_int)
  have "js_rem t (real T) / real U = t / real U - of_int (int m * int (k div m))"
    using U mpos t0 T flT by (simp add: js_rem_nonneg m field_simps)
  then have "\<lfloor>js_rem t (real T) / real U\<rfloor> = int k - int m * int (k div m)"
    using fl by (simp del: of_int_mult of_int_of_nat_eq)
  also have "\<dots> = int (k mod m)"
    by (metis minus_mult_div_eq_mod of_nat_div of_nat_mod)
  finally show ?thesis using m U by simp
qed

lemma table_lookup_step:
  assumes "registered fs a" and "0 < fullDuration a" and "0 < unit a"
    and "real k * real (unit a) \<le> t" and "t < real (k + 1) * real (unit a)"
  shows "table_lookup a (js_rem t (real (fullDuration a)))
         = table a (k mod (fullDuration a div unit a) * unit a)"
proof -
  from registered_invariant [OF assms(1)] have "unit a dvd fullDuration a"
    by (meson dvd_trans)
  from floor_js_rem_step [OF assms(3) assms(2) this assms(4) assms(5)]
  have "\<lfloor>js_rem t (real (fullDuration a)) / real (unit a)\<rfloor> = int (k mod (fullDuration a div unit a))" .
  then show ?thesis using assms(3)
    by (simp add: table_lookup_def Let_def nat_mult_distrib flip: of_nat_mult)
qed

text \<open>
  Claim C9.  For a registered looping animation (every frame declares a duration), with
  \<open>T = fullDuration\<close> and sampling unit \<open>U = unit\<close>: the animation function takes the
  same value at \<open>t\<close> and \<open>t + T\<close> for every \<open>t \<ge> 0\<close>, and it is constant on every
  half-open interval \<open>[k U, (k + 1) U)\<close>.
\<close>

theorem looping_animation_periodic_and_stepwise:
  assumes "registered fs a" and "\<forall>f \<in> set fs. duration f \<noteq> None"
  shows "(\<forall>t\<ge>0. getFrame (TableAnimation a) (t + real (fullDuration a))
                 = getFrame (TableAnimation a) t)
       \<and> (\<forall>k::nat. \<forall>t1 t2.
             real k * real (unit a) \<le> t1 \<and> t1 < real (k + 1) * real (unit a)
           \<and> real k * real (unit a) \<le> t2 \<and> t2 < real (k + 1) * real (unit a)
           \<longrightarrow> getFrame (TableAnimation a) t1 = getFrame (TableAnimation a) t2)"
proof (intro conjI allI impI)
  from registered_invariant [OF assms(1)] assms(2) have lp: "looping a" by simp
  {
    fix t :: real assume "0 \<le> t"
    then show "getFrame (TableAnimation a) (t + real (fullDuration a)) = getFrame (TableAnimation a) t"
      using lp by (simp add: js_rem_add_period)
  }
  fix k :: nat and t1 t2 :: real
  assume iv: "real k * real (unit a) \<le> t1 \<and> t1 < real (k + 1) * real (unit a)
           \<and> real k * real (unit a) \<le> t2 \<and> t2 < real (k + 1) * real (unit a)"
  show "getFrame (TableAnimation a) t1 = getFrame (TableAnimation a) t2"
  proof (cases "fullDuration a = 0 \<or> unit a = 0")
    case True
    then show ?thesis using lp by (auto simp: table_lookup_def)
  next
    case False
    then have pos: "0 < fullDuration a" "0 < unit a" by simp_all
    have "table_lookup a (js_rem t1 (real (fullDuration a)))
                = table a (k mod (fullDuration a div unit a) * unit a)"
      using iv by (intro table_lookup_step [OF assms(1) pos]) blast+
    moreover have "table_lookup a (js_rem t2 (real (fullDuration a)))
                = table a (k mod (fullDuration a div unit a) * unit a)"
      using iv by (intro table_lookup_step [OF assms(1) pos]) blast+
    ultimately have "table_lookup a (js_rem t1 (real (fullDuration a)))
                = table_lookup a (js_rem t2 (real (fullDuration a)))" by simp
    then show ?thesis using lp by simp
  qed
qed

lemma demo_anim_built: "Animation demo_frames = Some (Inr (TableAnimation demo_anim))"
  by (simp add: Animation_def demo_frames_def demo_anim_def scan_frames_def scan_frame_def
      synchronize_def synchronize_loop.simps gcd_js_eq_gcd)

theorem looping_animation_periodic_and_stepwise_witness:
  "registered demo_frames demo_anim
   \<and> getFrame (TableAnimation demo_anim) (5 + 30) = getFrame (TableAnimation demo_anim) 5
   \<and> getFrame (TableAnimation demo_anim) 12 = getFrame (TableAnimation demo_anim) 17
   \<and> getFrame (TableAnimation demo_anim) 17 = Inr (Some 1)"
proof -
  have r: "registered demo_frames demo_anim"
    by (rule registered_new) (rule demo_anim_built)
  have d: "\<forall>f \<in> set demo_frames. duration f \<noteq> None"
    by (simp add: demo_frames_def)
  have fd: "fullDuration demo_anim = 30" and u: "unit demo_anim = 10"
    by (simp_all add: demo_anim_def)
  note th = looping_animation_periodic_and_stepwise [OF r d]
  have p: "getFrame (TableAnimation demo_anim) (5 + 30) = getFrame (TableAnimation demo_anim) 5"
    using th [THEN conjunct1, rule_format, of 5] by (simp only: fd) simp
  have s: "getFrame (TableAnimation demo_anim) 12 = getFrame (TableAnimation demo_anim) 17"
    by (rule th [THEN conjunct2, rule_format, of 1 12 17]) (simp add: u)
  have v: "getFrame (TableAnimation demo_anim) 17 = Inr (Some 1)"
    by (simp add: demo_anim_def table_lookup_def js_rem_def)
  from p s r v show ?thesis by (intro conjI)
qed

subsection \<open>Termination of the loops\<close>

text \<open>The loop of \<^verbatim>\<open>synchronize\<close> ends when the unit is positive, and at once when the full
  duration is zero.\<close>

lemma synchronize_loop_returns:
  assumes "0 < u \<or> full \<le> time"
  shows "\<exists>r. synchronize_loop fs u full time frameIndex frameTime tbl = Some r"
  using assms
proof (induction "full - time" arbitrary: time frameIndex frameTime tbl rule: less_induct)
  case less
  show ?case
  proof (cases "time < full")
    case False
    then show ?thesis by (subst synchronize_loop.simps) simp
  next
    case True
    with less.prems have u: "0 < u" by simp
    then have dec: "full - (time + u) < full - time" using True by simp
    have ih: "\<exists>r. synchronize_loop fs u full (time + u) fi ft t = Some r" for fi ft t
      by (rule less.hyps [OF dec]) (simp add: u)
    show ?thesis
      by (subst synchronize_loop.simps) (simp add: True Let_def ih)
  qed
qed

lemma scan_frames_zero_unit:
  assumes "fold scan_frame fs (pu, fd, lp, lf) = (pu', fd', lp', lf')" and "pu' = 0" and "pu = 0 \<longrightarrow> fd = 0"
  shows "fd' = 0"
  using assms
proof (induction fs arbitrary: pu fd lp lf)
  case Nil
  then show ?case by simp
next
  case (Cons f fs)
  show ?case
  proof (cases "duration f")
    case None
    with Cons.prems have "fold scan_frame fs (pu, fd, False, Some (fid f)) = (pu', fd', lp', lf')"
      by (simp add: scan_frame_simps)
    from Cons.IH [OF this Cons.prems(2,3)] show ?thesis .
  next
    case (Some d)
    with Cons.prems have step: "fold scan_frame fs (gcd pu d, fd + d, lp, lf) = (pu', fd', lp', lf')"
      by (simp add: scan_frame_simps gcd_js_eq_gcd)
    have "gcd pu d = 0 \<longrightarrow> fd + d = 0" using Cons.prems(3) by simp
    from Cons.IH [OF step Cons.prems(2) this] show ?thesis .
  qed
qed

text \<open>\<^verbatim>\<open>new Animation(frames)\<close> always returns or throws: its loops end.\<close>

lemma synchronize_returns:
  assumes "partialUnit a = 0 \<longrightarrow> fullDuration a = 0"
  shows "\<exists>r. synchronize a period = Some r"
proof -
  have "0 < gcd (partialUnit a) period \<or> fullDuration a \<le> 0"
    using assms by (cases "partialUnit a = 0") auto
  from synchronize_loop_returns [OF this, of "frames a" 0 0 Map.empty]
  obtain r where "synchronize_loop (frames a) (gcd (partialUnit a) period) (fullDuration a) 0 0 0 Map.empty = Some r"
    by blast
  then show ?thesis
    by (cases r) (simp_all add: synchronize_def gcd_js_eq_gcd)
qed

lemma Animation_returns: "\<exists>r. Animation fs = Some r"
proof (cases "length fs < 2")
  case True
  then show ?thesis by (simp add: Animation_def)
next
  case False
  obtain pu fd lp lf where sc: "scan_frames fs = (pu, fd, lp, lf)"
    by (metis prod_cases4)
  then have "pu = 0 \<longrightarrow> fd = 0"
    using scan_frames_zero_unit [of fs 0 0 True None pu fd lp lf] by (simp add: scan_frames_def)
  then have "\<exists>r. synchronize \<lparr>frames = fs, partialUnit = pu, fullDuration = fd, looping = lp,
                    lastFrameId = lf, table = Map.empty, unit = 0\<rparr> pu = Some r"
    by (intro synchronize_returns) simp
  then obtain r where "synchronize \<lparr>frames = fs, partialUnit = pu, fullDuration = fd, looping = lp,
                    lastFrameId = lf, table = Map.empty, unit = 0\<rparr> pu = Some r" by blast
  with False sc show ?thesis
    by (cases r) (simp_all add: Animation_def)
qed

lemma registered_synchronize_returns:
  assumes "registered fs a"
  shows "\<exists>r. synchronize a period = Some r"
proof -
  from registered_invariant [OF assms] have "partialUnit a dvd fullDuration a" by simp
  then have "partialUnit a = 0 \<longrightarrow> fullDuration a = 0" by auto
  then show ?thesis by (rule synchronize_returns)
qed


section \<open>Properties of the tile map\<close>

subsection \<open>The pathfinding graph\<close>

lemma addNeighbor_result:
  assumes "addNeighbor d m k i j index ns = Inr ns'"
  shows "ns' = ns @ (if edge_present d m k i j index
                     then [(index, i + offset_i index, j + offset_j index)] else [])"
  using assms
  by (auto simp: addNeighbor_def edge_present_def Let_def split: if_splits sum.splits bool.splits)

lemma foldE_addNeighbor:
  assumes "foldE (addNeighbor d m k i j) idxs ns = Inr ns'"
  shows "ns' = ns @ concat (map (\<lambda>index. if edge_present d m k i j index
                     then [(index, i + offset_i index, j + offset_j index)] else []) idxs)"
  using assms
proof (induction idxs arbitrary: ns)
  case Nil
  then show ?case by simp
next
  case (Cons x xs)
  from Cons.prems obtain ns1 where s1: "addNeighbor d m k i j x ns = Inr ns1"
    and s2: "foldE (addNeighbor d m k i j) xs ns1 = Inr ns'"
    by (auto split: sum.splits)
  from Cons.IH [OF s2] addNeighbor_result [OF s1] show ?case by simp
qed

lemma makeNode_neighbors:
  assumes "makeNode d m k ti tj i j = Inr node"
  shows "set (neighbors node) = {(index, i + offset_i index, j + offset_j index) | index.
            index < 9 \<and> edge_present d m k i j index}"
proof -
  from assms obtain ns where f: "foldE (addNeighbor d m k i j) [0..<9] [] = Inr ns"
    and n: "neighbors node = ns"
    by (auto simp: makeNode_def Let_def split: sum.splits)
  from foldE_addNeighbor [OF f] n show ?thesis by (auto split: if_splits)
qed

lemma offsets_nontrivial: "index < 9 \<Longrightarrow> (offset_i index \<noteq> 0 \<or> offset_j index \<noteq> 0) = (index \<noteq> 4)"
proof -
  assume "index < 9"
  then have "index \<in> {0, 1, 2, 3, 4, 5, 6, 7, 8}" by auto
  then show ?thesis by (auto simp: offset_i_def offset_j_def)
qed

lemma heuristic_zero_iff:
  fixes di dj :: real
  assumes "0 \<le> di" "0 \<le> dj"
  shows "(sqrt ((min di dj)\<^sup>2 * 2) + max di dj - min di dj = 0) = (di = 0 \<and> dj = 0)"
proof
  assume h: "sqrt ((min di dj)\<^sup>2 * 2) + max di dj - min di dj = 0"
  have a: "0 \<le> sqrt ((min di dj)\<^sup>2 * 2)" by simp
  have b: "0 \<le> max di dj - min di dj" by simp
  from h a b have "sqrt ((min di dj)\<^sup>2 * 2) = 0" and e: "max di dj - min di dj = 0" by linarith+
  then have "min di dj = 0" by simp
  with e show "di = 0 \<and> dj = 0" by (auto simp: min_def max_def split: if_splits)
next
  assume "di = 0 \<and> dj = 0"
  then show "sqrt ((min di dj)\<^sup>2 * 2) + max di dj - min di dj = 0" by simp
qed

text \<open>
  Claim C8.  In the graph of \<^verbatim>\<open>getGraphNode\<close>, for every node \<open>(i, j)\<close> that is built:
  the edge \<open>index\<close> to the neighbouring cell is present if and only if that cell is walkable
  and, for a diagonal edge (even \<open>index\<close>), both orthogonal cells next to the diagonal are
  walkable too; there are no other edges; \<^verbatim>\<open>distance\<close> is \<open>sqrt 2\<close> on the diagonal
  edges and 1 on the orthogonal ones; and the heuristic is 0 exactly at the target cell.
\<close>

theorem getGraphNode_graph:
  assumes "getGraphNode d m i j k i1 j1 = Inr node"
  shows "(\<forall>index<9. index \<noteq> 4 \<longrightarrow>
            ((index, i + offset_i index, j + offset_j index) \<in> set (neighbors node))
            = (walkable d m k (i + offset_i index) (j + offset_j index) = Inr True
               \<and> (even index \<longrightarrow> walkable d m k i (j + offset_j index) = Inr True
                                \<and> walkable d m k (i + offset_i index) j = Inr True)))
       \<and> (\<forall>(index, c) \<in> set (neighbors node).
            index < 9 \<and> index \<noteq> 4 \<and> c = (i + offset_i index, j + offset_j index))
       \<and> (\<forall>index \<in> {0, 2, 6, 8}. distance index = sqrt 2)
       \<and> (\<forall>index \<in> {1, 3, 5, 7}. distance index = 1)
       \<and> (heuristic node = 0) = (i = i1 \<and> j = j1)"
proof -
  from assms have mk: "makeNode d m k i1 j1 i j = Inr node" by (simp add: getGraphNode_def)
  note nb = makeNode_neighbors [OF mk]
  have p1: "\<forall>index<9. index \<noteq> 4 \<longrightarrow>
            ((index, i + offset_i index, j + offset_j index) \<in> set (neighbors node))
            = (walkable d m k (i + offset_i index) (j + offset_j index) = Inr True
               \<and> (even index \<longrightarrow> walkable d m k i (j + offset_j index) = Inr True
                                \<and> walkable d m k (i + offset_i index) j = Inr True))"
    unfolding nb using offsets_nontrivial by (auto simp: edge_present_def)
  have p2: "\<forall>(index, c) \<in> set (neighbors node).
            index < 9 \<and> index \<noteq> 4 \<and> c = (i + offset_i index, j + offset_j index)"
    unfolding nb using offsets_nontrivial by (auto simp: edge_present_def)
  have p3: "\<forall>index \<in> {0, 2, 6, 8}. distance index = sqrt 2" by (simp add: distance_def)
  have p4: "\<forall>index \<in> {1, 3, 5, 7}. distance index = 1" by (simp add: distance_def)
  from mk have h: "heuristic node = sqrt ((min \<bar>real_of_int (i1 - i)\<bar> \<bar>real_of_int (j1 - j)\<bar>)\<^sup>2 * 2)
      + max \<bar>real_of_int (i1 - i)\<bar> \<bar>real_of_int (j1 - j)\<bar> - min \<bar>real_of_int (i1 - i)\<bar> \<bar>real_of_int (j1 - j)\<bar>"
    by (auto simp: makeNode_def Let_def split: sum.splits)
  have p5: "(heuristic node = 0) = (i = i1 \<and> j = j1)"
    unfolding h by (subst heuristic_zero_iff) auto
  from p1 p2 p3 p4 p5 show ?thesis by blast
qed

lemma upt_0_9: "[0..<9] = [0, 1, 2, 3, 4, 5, 6, 7, 8::nat]"
  by code_simp

lemma demo_walk_node_built: "getGraphNode demo_walk_data demo_walk_matrix 1 1 0 2 2 = Inr demo_walk_node"
  by (simp add: getGraphNode_def makeNode_def upt_0_9 addNeighbor_def walkable_def tileAt_def
      tileDescriptor_def demo_walk_data_def demo_walk_matrix_def demo_walk_node_def demo_floor_def
      demo_tile_def Matrix_put_def Matrix_new_def Matrix_has_def Matrix_get_def
      offset_i_def offset_j_def)

theorem getGraphNode_graph_witness:
  "getGraphNode demo_walk_data demo_walk_matrix 1 1 0 2 2 = Inr demo_walk_node
   \<and> ((8, 1 + offset_i 8, 1 + offset_j 8) \<in> set (neighbors demo_walk_node))
     = (walkable demo_walk_data demo_walk_matrix 0 (1 + offset_i 8) (1 + offset_j 8) = Inr True
        \<and> (even (8::nat) \<longrightarrow>
              walkable demo_walk_data demo_walk_matrix 0 1 (1 + offset_j 8) = Inr True
            \<and> walkable demo_walk_data demo_walk_matrix 0 (1 + offset_i 8) 1 = Inr True))
   \<and> (8, 2, 2) \<in> set (neighbors demo_walk_node)
   \<and> (0, 0, 0) \<notin> set (neighbors demo_walk_node)
   \<and> heuristic demo_walk_node \<noteq> 0"
proof -
  note th = getGraphNode_graph [OF demo_walk_node_built]
  have a: "((8, 1 + offset_i 8, 1 + offset_j 8) \<in> set (neighbors demo_walk_node))
     = (walkable demo_walk_data demo_walk_matrix 0 (1 + offset_i 8) (1 + offset_j 8) = Inr True
        \<and> (even (8::nat) \<longrightarrow>
              walkable demo_walk_data demo_walk_matrix 0 1 (1 + offset_j 8) = Inr True
            \<and> walkable demo_walk_data demo_walk_matrix 0 (1 + offset_i 8) 1 = Inr True))"
    using th [THEN conjunct1, rule_format, of 8] by simp
  have b: "heuristic demo_walk_node \<noteq> 0"
    using th [THEN conjunct2, THEN conjunct2, THEN conjunct2, THEN conjunct2] by simp
  have c: "(8, 2, 2) \<in> set (neighbors demo_walk_node)" "(0, 0, 0) \<notin> set (neighbors demo_walk_node)"
    by (simp_all add: demo_walk_node_def)
  from demo_walk_node_built a b c show ?thesis by (intro conjI)
qed

subsection \<open>The collision clamp\<close>

lemmas demo_map_defs = demo_data_def demo_matrix_def demo_tile_def Matrix_put_def Matrix_new_def
     Matrix_hasLayer_def Matrix_has_def Matrix_get_def 

text \<open>
  Claim C3 as stated fails: a rectangle at rest (\<open>Di = Dj = 0\<close>) that overlaps the solid
  tile by 0.0005 gets the correction \<open>(0.0005, 0)\<close>, which the tolerance of 0.001 lets
  through.
\<close>

theorem rectangleCollision_rest_counterexample:
  "rectangleCollision demo_data demo_matrix 0 (9995/10000) 0 1 1 0 0 None = Inr (1/2000, 0)
   \<and> rectangleCollision demo_data demo_matrix 0 (9995/10000) 0 1 1 0 0 None \<noteq> Inr (0, 0)"
  by (simp add: rectangleCollision_def demo_map_defs solidTileAt_def tileAt_def tileDescriptor_def
      scanEdge_def combine_def clamp_def upto.simps)

lemma clamp_bound: "\<bar>clamp v D\<bar> \<le> \<bar>D\<bar> + 1 / 1000"
  by (simp add: clamp_def)

lemma rectangleCollision_clamped:
  assumes "rectangleCollision d m k i j di dj Di Dj collides = Inr v"
  shows "\<bar>fst v\<bar> \<le> \<bar>Di\<bar> + 1 / 1000 \<and> \<bar>snd v\<bar> \<le> \<bar>Dj\<bar> + 1 / 1000"
proof -
  from assms obtain a b c e where "v = (clamp (combine a b) Di, clamp (combine c e) Dj)"
    unfolding rectangleCollision_def by (auto split: sum.splits prod.splits)
  then show ?thesis by (simp add: clamp_bound)
qed

text \<open>
  Claim C3, amended.  For a call with actual displacement \<open>Di = Dj = 0\<close>, each component of
  the returned correction vector has magnitude at most the tolerance 0.001.
\<close>

theorem rectangleCollision_rest:
  assumes "rectangleCollision d m k i j di dj 0 0 collides = Inr v"
  shows "\<bar>fst v\<bar> \<le> 1 / 1000 \<and> \<bar>snd v\<bar> \<le> 1 / 1000"
  using rectangleCollision_clamped [OF assms] by simp

lemma demo_rest_collision:
  "rectangleCollision demo_data demo_matrix 0 (9995/10000) 0 1 1 0 0 None = Inr (1/2000, 0)"
  by (simp add: rectangleCollision_def demo_map_defs solidTileAt_def tileAt_def tileDescriptor_def
      scanEdge_def combine_def clamp_def upto.simps)

theorem rectangleCollision_rest_witness:
  "rectangleCollision demo_data demo_matrix 0 (9995/10000) 0 1 1 0 0 None = Inr (1/2000, 0)
   \<and> \<bar>fst (1/2000::real, 0::real)\<bar> \<le> 1 / 1000 \<and> \<bar>snd (1/2000::real, 0::real)\<bar> \<le> 1 / 1000"
  using rectangleCollision_rest [OF demo_rest_collision] demo_rest_collision by (intro conjI) blast+


section \<open>Properties of the pathfinder\<close>

text \<open>In the five-node graph the heuristic is admissible: it never exceeds the cost of a
  path to the goal.\<close>

lemma demo_goal_distance_lower_bound:
  assumes "path_end demo_graph n es = Some NG" and "path_cost demo_graph n es = Some c"
  shows "demo_goal_distance n \<le> c"
  using assms
proof (induction es arbitrary: n c)
  case Nil
  then show ?case by simp
next
  case (Cons e es)
  from Cons.prems obtain n' c' where
    step: "map_of (demo_neighbors n) e = Some n'" and
    pe: "path_end demo_graph n' es = Some NG" and
    pc: "path_cost demo_graph n' es = Some c'" and
    c: "c = demo_distance n e + c'"
    by (auto simp: demo_graph_def split: option.splits)
  from Cons.IH [OF pe pc] have "demo_goal_distance n' \<le> c'" .
  with step c show ?case
    by (cases n) (auto split: if_splits)
qed

lemma demo_heuristic_admissible:
  assumes "path_end demo_graph n es = Some NG" and "path_cost demo_graph n es = Some c"
  shows "heuristic_of demo_graph n \<le> c"
proof -
  have "heuristic_of demo_graph n \<le> demo_goal_distance n"
    by (cases n) (simp_all add: demo_graph_def)
  with demo_goal_distance_lower_bound [OF assms] show ?thesis by simp
qed

lemma demo_heuristic_zero_iff: "(heuristic_of demo_graph n = 0) = (n = NG)"
  by (cases n) (simp_all add: demo_graph_def)

text \<open>
  Claim C5 fails on the code.  With \<open>epsilon = 0\<close> and the admissible heuristic of the
  five-node graph, \<^verbatim>\<open>findPath\<close> returns the path \<open>S \<rightarrow> B \<rightarrow> C \<rightarrow> G\<close> of cost 7, while
  \<open>S \<rightarrow> A \<rightarrow> C \<rightarrow> G\<close> reaches the goal at cost 6: node \<open>C\<close> is closed when it is first
  reached through \<open>B\<close>, and the cheaper way through \<open>A\<close> is then ignored.
\<close>

theorem findPath_closed_node_not_reopened:
  "findPath 0 demo_graph NS = Some (Some [NB, NC, NG])
   \<and> path_cost demo_graph NS [NB, NC, NG] = Some 7
   \<and> path_end demo_graph NS [NA, NC, NG] = Some NG
   \<and> path_cost demo_graph NS [NA, NC, NG] = Some 6"
proof -
  have "findPath 0 demo_graph NS = Some (Some [NB, NC, NG])"
    by code_simp
  then show ?thesis by (simp add: demo_graph_def)
qed


section \<open>Properties of the buckets\<close>

lemma getBucket_fst_entries:
  "enumerateSection (fst (getBucket st key)) s = sectionEntries st key s"
  by (simp add: getBucket_def sectionEntries_def enumerateSection_def Bucket_new_def split: option.splits)

lemma getBucket_fst_minS: "minS (fst (getBucket st key)) = bucketMinS st key"
  by (simp add: getBucket_def bucketMinS_def Bucket_new_def split: option.splits)

lemma getBucket_fst_maxS: "maxS (fst (getBucket st key)) = bucketMaxS st key"
  by (simp add: getBucket_def bucketMaxS_def Bucket_new_def split: option.splits)

lemma getBucket_snd_entries:
  "sectionEntries (snd (getBucket st key)) key' s = sectionEntries st key' s"
  by (simp add: getBucket_def sectionEntries_def enumerateSection_def Bucket_new_def split: option.splits)

lemma getBucket_snd_minS: "bucketMinS (snd (getBucket st key)) key' = bucketMinS st key'"
  by (simp add: getBucket_def bucketMinS_def Bucket_new_def split: option.splits)

lemma getBucket_snd_maxS: "bucketMaxS (snd (getBucket st key)) key' = bucketMaxS st key'"
  by (simp add: getBucket_def bucketMaxS_def Bucket_new_def split: option.splits)

lemma getBucket_snd_elements: "bk_elements (snd (getBucket st key)) = bk_elements st"
  by (simp add: getBucket_def split: option.splits)

lemma yieldElement_cong:
  "bk_elements st' = bk_elements st \<Longrightarrow> yieldElement v st' now e = yieldElement v st now e"
  by (simp add: yieldElement_def)

lemma forEachElement_emissions:
  "fst (forEachElement v st now)
   = concat (map (\<lambda>s. concat (map (\<lambda>key. concat (map (yieldElement v st now) (sectionEntries st key s)))
                                 (viewportKeys v)))
              [viewLo v st..viewHi v st])"
proof -
  define i where "i = \<lfloor>- v_y0 v / real (v_height v)\<rfloor>"
  define j where "j = \<lfloor>- v_x0 v / real (v_width v)\<rfloor>"
  define st1 where "st1 = snd (getBucket st (i, j))"
  define st2 where "st2 = snd (getBucket st1 (i, j + 1))"
  define st3 where "st3 = snd (getBucket st2 (i + 1, j))"
  define st4 where "st4 = snd (getBucket st3 (i + 1, j + 1))"
  have el: "bk_elements st4 = bk_elements st"
    by (simp add: st4_def st3_def st2_def st1_def getBucket_snd_elements)
  have y: "yieldElement v st4 now = yieldElement v st now"
    by (rule ext) (simp add: yieldElement_cong [OF el])
  have e1: "enumerateSection (fst (getBucket st (i, j))) s = sectionEntries st (i, j) s" for s
    by (rule getBucket_fst_entries)
  have e2: "enumerateSection (fst (getBucket st1 (i, j + 1))) s = sectionEntries st (i, j + 1) s" for s
    by (simp add: getBucket_fst_entries st1_def getBucket_snd_entries)
  have e3: "enumerateSection (fst (getBucket st2 (i + 1, j))) s = sectionEntries st (i + 1, j) s" for s
    by (simp add: getBucket_fst_entries st2_def st1_def getBucket_snd_entries)
  have e4: "enumerateSection (fst (getBucket st3 (i + 1, j + 1))) s = sectionEntries st (i + 1, j + 1) s" for s
    by (simp add: getBucket_fst_entries st3_def st2_def st1_def getBucket_snd_entries)
  have m: "minS (fst (getBucket st (i, j))) = bucketMinS st (i, j)"
      "minS (fst (getBucket st1 (i, j + 1))) = bucketMinS st (i, j + 1)"
      "minS (fst (getBucket st2 (i + 1, j))) = bucketMinS st (i + 1, j)"
      "minS (fst (getBucket st3 (i + 1, j + 1))) = bucketMinS st (i + 1, j + 1)"
      "maxS (fst (getBucket st (i, j))) = bucketMaxS st (i, j)"
      "maxS (fst (getBucket st1 (i, j + 1))) = bucketMaxS st (i, j + 1)"
      "maxS (fst (getBucket st2 (i + 1, j))) = bucketMaxS st (i + 1, j)"
      "maxS (fst (getBucket st3 (i + 1, j + 1))) = bucketMaxS st (i + 1, j + 1)"
    by (simp_all add: getBucket_fst_minS getBucket_fst_maxS st3_def st2_def st1_def
        getBucket_snd_minS getBucket_snd_maxS)
  have vk: "viewportKeys v = [(i, j), (i, j + 1), (i + 1, j), (i + 1, j + 1)]"
    by (simp add: viewportKeys_def Let_def i_def j_def)
  have "fst (forEachElement v st now)
      = concat (map (\<lambda>s. concat (map (\<lambda>b. concat (map (yieldElement v st4 now) (enumerateSection b s)))
           [fst (getBucket st (i, j)), fst (getBucket st1 (i, j + 1)),
            fst (getBucket st2 (i + 1, j)), fst (getBucket st3 (i + 1, j + 1))]))
          [min (min (minS (fst (getBucket st (i, j)))) (minS (fst (getBucket st1 (i, j + 1)))))
               (min (minS (fst (getBucket st2 (i + 1, j)))) (minS (fst (getBucket st3 (i + 1, j + 1)))))
           ..max (max (maxS (fst (getBucket st (i, j)))) (maxS (fst (getBucket st1 (i, j + 1)))))
               (max (maxS (fst (getBucket st2 (i + 1, j)))) (maxS (fst (getBucket st3 (i + 1, j + 1)))))])"
    unfolding forEachElement_def i_def [symmetric] j_def [symmetric]
    by (simp add: Let_def split_beta st1_def st2_def st3_def st4_def)
  also have "\<dots> = concat (map (\<lambda>s. concat (map (\<lambda>key. concat (map (yieldElement v st now) (sectionEntries st key s)))
                                 (viewportKeys v)))
              [viewLo v st..viewHi v st])"
    unfolding m y
    by (simp add: e1 e2 e3 e4 viewLo_def viewHi_def vk)
  finally show ?thesis .
qed


lemma filter_yieldElement:
  "filter (\<lambda>x. em_p x = a) (concat (map (yieldElement v st now) es))
   = concat (map (yieldElement v st now) (filter (\<lambda>e. e_p e = a) es))"
  by (induction es) (auto simp: yieldElement_def split: option.splits)

lemma yield_single:
  assumes "bk_elements st a = Some el"
    and "map (\<lambda>e. (e_width e, e_height e)) es = [(w, h)]" and "\<forall>e \<in> set es. e_p e = a"
  shows "length (concat (map (yieldElement v st now) es)) = (if inViewport v (elem_p el) w h then 1 else 0)"
proof -
  from assms(2) obtain e where es: "es = [e]" and wh: "e_width e = w" "e_height e = h"
    by (cases es) auto
  with assms(3) have "e_p e = a" by simp
  with assms(1) wh show ?thesis by (simp add: es yieldElement_def)
qed

lemma sum_list_indicator:
  "sum_list (map (\<lambda>x. if P x then 1 else 0) xs) = length (filter P xs)"
  by (induction xs) auto

lemma sum_list_upto_delta:
  "sum_list (map (\<lambda>s. if s = z then (c::nat) else 0) [lo..hi]) = (if lo \<le> z \<and> z \<le> hi then c else 0)"
proof -
  have "sum_list (map (\<lambda>s. if s = z then c else 0) [lo..hi]) = sum (\<lambda>s. if s = z then c else 0) (set [lo..hi])"
    by (rule sum_list_distinct_conv_sum_set) simp
  also have "\<dots> = (if z \<in> {lo..hi} then c else 0)"
    by (simp add: sum.delta)
  finally show ?thesis by simp
qed

lemma length_filter_concat_map:
  "length (filter P (concat (map f xs))) = sum_list (map (\<lambda>x. length (filter P (f x))) xs)"
  by (induction xs) auto

lemma viewLo_le:
  assumes "key \<in> set (viewportKeys v)"
  shows "viewLo v st \<le> bucketMinS st key" and "bucketMaxS st key \<le> viewHi v st"
  using assms by (auto simp: viewLo_def viewHi_def viewportKeys_def Let_def)

lemma invocations_placed:
  assumes pl: "placed v st a" and el: "bk_elements st a = Some el"
  shows "invocations a (fst (forEachElement v st now))
         = (if inViewport v (elem_p el) (el_width (elem_element el)) (el_height (elem_element el))
            then length (filter (\<lambda>key. key \<in> set (bucketKeys v (p1 (elem_p el) div int (v_height v))
                          (p0 (elem_p el) div int (v_width v)) (elem_p el)
                          (el_width (elem_element el)) (el_height (elem_element el))))
                        (viewportKeys v))
            else 0)"
proof -
  define p where "p = elem_p el"
  define w where "w = el_width (elem_element el)"
  define h where "h = el_height (elem_element el)"
  define R where "R = bucketKeys v (p1 p div int (v_height v)) (p0 p div int (v_width v)) p w h"
  define vis where "vis = inViewport v p w h"
  define n where "n = length (filter (\<lambda>key. key \<in> set R) (viewportKeys v))"
  from pl el have both: "(\<forall>key s. map (\<lambda>e. (e_width e, e_height e))
                           (filter (\<lambda>e. e_p e = a) (sectionEntries st key s))
                        = (if key \<in> set R \<and> s = p2 p then [(w, h)] else []))
      \<and> (\<forall>key \<in> set R. bucketMinS st key \<le> p2 p \<and> p2 p \<le> bucketMaxS st key)"
    unfolding placed_def p_def w_def h_def R_def by (simp add: Let_def)
  from both have reg: "map (\<lambda>e. (e_width e, e_height e))
                           (filter (\<lambda>e. e_p e = a) (sectionEntries st key s))
                        = (if key \<in> set R \<and> s = p2 p then [(w, h)] else [])" for key s
    by blast
  from both have rng: "key \<in> set R \<Longrightarrow> bucketMinS st key \<le> p2 p \<and> p2 p \<le> bucketMaxS st key" for key
    by blast
  have cell: "length (filter (\<lambda>x. em_p x = a) (concat (map (yieldElement v st now) (sectionEntries st key s))))
              = (if s = p2 p then (if vis \<and> key \<in> set R then 1 else 0) else 0)" for key s
  proof (cases "key \<in> set R \<and> s = p2 p")
    case True
    with reg [of key s] have m: "map (\<lambda>e. (e_width e, e_height e))
                           (filter (\<lambda>e. e_p e = a) (sectionEntries st key s)) = [(w, h)]" by simp
    have "length (concat (map (yieldElement v st now) (filter (\<lambda>e. e_p e = a) (sectionEntries st key s))))
          = (if inViewport v (elem_p el) w h then 1 else 0)"
      by (rule yield_single [OF el m]) simp
    with True show ?thesis by (simp add: filter_yieldElement vis_def p_def)
  next
    case False
    with reg [of key s] have "filter (\<lambda>e. e_p e = a) (sectionEntries st key s) = []" by simp
    with False show ?thesis by (auto simp: filter_yieldElement)
  qed
  have row: "length (filter (\<lambda>x. em_p x = a)
                (concat (map (\<lambda>key. concat (map (yieldElement v st now) (sectionEntries st key s)))
                           (viewportKeys v))))
             = (if s = p2 p then (if vis then n else 0) else 0)" for s
  proof -
    have "length (filter (\<lambda>x. em_p x = a)
                (concat (map (\<lambda>key. concat (map (yieldElement v st now) (sectionEntries st key s)))
                           (viewportKeys v))))
          = sum_list (map (\<lambda>key. if s = p2 p then (if vis \<and> key \<in> set R then 1 else 0) else 0)
                        (viewportKeys v))"
      by (subst length_filter_concat_map) (simp only: cell)
    also have "\<dots> = (if s = p2 p then (if vis then n else 0) else 0)"
      by (simp add: n_def sum_list_indicator)
    finally show ?thesis .
  qed
  have "invocations a (fst (forEachElement v st now))
        = sum_list (map (\<lambda>s. if s = p2 p then (if vis then n else 0) else 0) [viewLo v st..viewHi v st])"
    unfolding invocations_def forEachElement_emissions
    by (subst length_filter_concat_map) (simp only: row)
  also have "\<dots> = (if viewLo v st \<le> p2 p \<and> p2 p \<le> viewHi v st then (if vis then n else 0) else 0)"
    by (rule sum_list_upto_delta)
  also have "\<dots> = (if vis then n else 0)"
  proof (cases "n = 0")
    case True
    then show ?thesis by simp
  next
    case False
    then obtain key where k: "key \<in> set (viewportKeys v)" "key \<in> set R"
      by (auto simp: n_def filter_empty_conv)
    from rng [OF k(2)] viewLo_le [OF k(1), of st]
    have "viewLo v st \<le> p2 p \<and> p2 p \<le> viewHi v st" by linarith
    then show ?thesis by simp
  qed
  finally show ?thesis by (simp add: vis_def n_def R_def p_def w_def h_def)
qed


lemma div_as_floor: "(x::int) div int W = \<lfloor>real_of_int x / real W\<rfloor>"
  by (metis floor_divide_of_int_eq of_int_of_nat_eq)

lemma axis_cover:
  fixes x w :: int and W :: nat and X :: real
  assumes W: "0 < W" and w: "w \<le> int W"
    and lt: "real_of_int x < X + real W" and ge: "real_of_int (x + w) \<ge> X"
  shows "\<exists>c. (c = \<lfloor>X / real W\<rfloor> \<or> c = \<lfloor>X / real W\<rfloor> + 1)
           \<and> (c = x div int W \<or> (c = x div int W + 1 \<and> (x + w) div int W > x div int W))"
proof -
  define j where "j = \<lfloor>X / real W\<rfloor>"
  define b where "b = x div int W"
  define b1 where "b1 = (x + w) div int W"
  have Wr: "0 < real W" using W by simp
  have "real_of_int x / real W \<le> X / real W + 1"
    using lt Wr by (simp add: field_simps)
  then have "\<lfloor>real_of_int x / real W\<rfloor> \<le> \<lfloor>X / real W + 1\<rfloor>" by (rule floor_mono)
  then have b_le: "b \<le> j + 1" by (simp add: b_def j_def div_as_floor)
  have "X / real W \<le> real_of_int (x + w) / real W"
    using ge Wr by (simp add: field_simps)
  then have "\<lfloor>X / real W\<rfloor> \<le> \<lfloor>real_of_int (x + w) / real W\<rfloor>" by (rule floor_mono)
  then have b1_ge: "j \<le> b1" by (simp add: b1_def j_def div_as_floor)
  have "real_of_int (x + w) / real W \<le> real_of_int x / real W + 1"
    using w Wr by (simp add: field_simps)
  then have "\<lfloor>real_of_int (x + w) / real W\<rfloor> \<le> \<lfloor>real_of_int x / real W + 1\<rfloor>" by (rule floor_mono)
  then have b1_le: "b1 \<le> b + 1" by (simp add: b1_def b_def div_as_floor)
  show ?thesis
  proof (cases "j \<le> b")
    case True
    with b_le have "b = j \<or> b = j + 1" by linarith
    then show ?thesis unfolding j_def b_def by blast
  next
    case False
    with b1_ge b1_le have "b + 1 = j" "b1 > b" by linarith+
    then show ?thesis unfolding j_def b_def b1_def by auto
  qed
qed

lemma visible_registered_in_viewport_bucket:
  assumes W: "0 < v_width v" and H: "0 < v_height v"
    and w: "w \<le> int (v_width v)" and h: "h \<le> int (v_height v)"
    and vis: "inViewport v p w h"
  shows "\<exists>key \<in> set (viewportKeys v).
           key \<in> set (bucketKeys v (p1 p div int (v_height v)) (p0 p div int (v_width v)) p w h)"
proof -
  from vis have x1: "real_of_int (p0 p) < - v_x0 v + real (v_width v)"
    and y1: "real_of_int (p1 p) < - v_y0 v + real (v_height v)"
    and x2: "real_of_int (p0 p + w) \<ge> - v_x0 v"
    and y2: "real_of_int (p1 p + h) \<ge> - v_y0 v"
    by (simp_all add: inViewport_def)
  from axis_cover [OF W w x1 x2] obtain c where
    c: "c = \<lfloor>- v_x0 v / real (v_width v)\<rfloor> \<or> c = \<lfloor>- v_x0 v / real (v_width v)\<rfloor> + 1"
      "c = p0 p div int (v_width v)
       \<or> (c = p0 p div int (v_width v) + 1 \<and> (p0 p + w) div int (v_width v) > p0 p div int (v_width v))"
    by blast
  from axis_cover [OF H h y1 y2] obtain r where
    r: "r = \<lfloor>- v_y0 v / real (v_height v)\<rfloor> \<or> r = \<lfloor>- v_y0 v / real (v_height v)\<rfloor> + 1"
      "r = p1 p div int (v_height v)
       \<or> (r = p1 p div int (v_height v) + 1 \<and> (p1 p + h) div int (v_height v) > p1 p div int (v_height v))"
    by blast
  from c(1) r(1) have q: "(r, c) \<in> set (viewportKeys v)"
    by (auto simp: viewportKeys_def Let_def)
  from c(2) r(2) have "(r, c) \<in> set (bucketKeys v (p1 p div int (v_height v)) (p0 p div int (v_width v)) p w h)"
    by (auto simp: bucketKeys_def Let_def)
  with q show ?thesis by blast
qed

lemma bucketKeys_overlap:
  assumes W: "0 < v_width v" and H: "0 < v_height v"
    and w: "0 \<le> w" "w \<le> int (v_width v)" and h: "0 \<le> h" "h \<le> int (v_height v)"
  shows "(key \<in> set (bucketKeys v (p1 p div int (v_height v)) (p0 p div int (v_width v)) p w h))
         = overlapsBucket v p w h key"
proof -
  have c1: "p0 p div int (v_width v) \<le> (p0 p + w) div int (v_width v)"
    by (rule zdiv_mono1) (use w(1) W in simp_all)
  have "(p0 p + w) div int (v_width v) \<le> (p0 p + int (v_width v)) div int (v_width v)"
    by (rule zdiv_mono1) (use w(2) W in simp_all)
  then have c2: "(p0 p + w) div int (v_width v) \<le> p0 p div int (v_width v) + 1"
    using W by simp
  have r1: "p1 p div int (v_height v) \<le> (p1 p + h) div int (v_height v)"
    by (rule zdiv_mono1) (use h(1) H in simp_all)
  have "(p1 p + h) div int (v_height v) \<le> (p1 p + int (v_height v)) div int (v_height v)"
    by (rule zdiv_mono1) (use h(2) H in simp_all)
  then have r2: "(p1 p + h) div int (v_height v) \<le> p1 p div int (v_height v) + 1"
    using H by simp
  obtain r c where key: "key = (r, c)" by (cases key)
  show ?thesis
    using c1 c2 r1 r2 unfolding key bucketKeys_def overlapsBucket_def Let_def
    by (auto split: if_splits)
qed


lemma sectionEntries_update:
  "sectionEntries (st\<lparr>bk_buckets := (bk_buckets st)(key \<mapsto> b), bk_elements := els\<rparr>) key' s
   = (if key' = key then enumerateSection b s else sectionEntries st key' s)"
  by (simp add: sectionEntries_def)

lemma enumerateSection_Bucket_add:
  "enumerateSection (snd (Bucket_add b z e)) s
   = enumerateSection b s @ (if s = z then [e] else [])"
  by (simp add: Bucket_add_def enumerateSection_def MultiSet_add_def MultiSet_fastForEach_def
      MultiSet_new_def Let_def split: option.splits)

lemma minS_Bucket_add: "minS (snd (Bucket_add b z e)) = min (minS b) z"
  and maxS_Bucket_add: "maxS (snd (Bucket_add b z e)) = max (maxS b) z"
  by (simp_all add: Bucket_add_def Let_def split_beta)

lemma addToBucket_unfold:
  assumes "bk_elements st a = Some el"
  shows "addToBucket st a key =
     (snd (getBucket st key))\<lparr>bk_buckets := (bk_buckets (snd (getBucket st key)))(key \<mapsto>
                snd (Bucket_add (fst (getBucket st key)) (p2 (elem_p el)) (newEntry st el a))),
            bk_elements := (bk_elements (snd (getBucket st key)))(a \<mapsto>
                el\<lparr>elem_removers := elem_removers el
                     @ [\<lparr>rm_bucket = key, rm_section = p2 (elem_p el),
                         rm_id = fst (Bucket_add (fst (getBucket st key)) (p2 (elem_p el)) (newEntry st el a))\<rparr>]\<rparr>)\<rparr>"
  using assms by (simp add: addToBucket_def newEntry_def split_beta Let_def)

lemma addToBucket_entries:
  assumes "bk_elements st a = Some el"
  shows "sectionEntries (addToBucket st a key) key' s
         = sectionEntries st key' s
           @ (if key' = key \<and> s = p2 (elem_p el) then [newEntry st el a] else [])"
  unfolding addToBucket_unfold [OF assms] sectionEntries_update
  by (simp add: enumerateSection_Bucket_add getBucket_fst_entries getBucket_snd_entries)

lemma addToBucket_minS:
  assumes "bk_elements st a = Some el"
  shows "bucketMinS (addToBucket st a key) key'
         = (if key' = key then min (bucketMinS st key) (p2 (elem_p el)) else bucketMinS st key')"
  unfolding addToBucket_unfold [OF assms]
  by (simp add: bucketMinS_def minS_Bucket_add getBucket_def Bucket_new_def split: option.splits)

lemma addToBucket_maxS:
  assumes "bk_elements st a = Some el"
  shows "bucketMaxS (addToBucket st a key) key'
         = (if key' = key then max (bucketMaxS st key) (p2 (elem_p el)) else bucketMaxS st key')"
  unfolding addToBucket_unfold [OF assms]
  by (simp add: bucketMaxS_def maxS_Bucket_add getBucket_def Bucket_new_def split: option.splits)

lemma addToBucket_elements:
  assumes "bk_elements st a = Some el"
  shows "\<exists>rs. bk_elements (addToBucket st a key) = (bk_elements st)(a \<mapsto> el\<lparr>elem_removers := rs\<rparr>)"
  unfolding addToBucket_unfold [OF assms]
  by (auto simp: getBucket_snd_elements)

lemma addToBucket_static: "bk_static (addToBucket st a key) = bk_static st"
  and addToBucket_next: "bk_next (addToBucket st a key) = bk_next st"
  by (simp_all add: addToBucket_def getBucket_def split_beta Let_def split: option.splits)

lemma newEntry_removers [simp]: "newEntry st (el\<lparr>elem_removers := rs\<rparr>) a = newEntry st el a"
  by (simp add: newEntry_def)

lemma newEntry_static: "bk_static st' = bk_static st \<Longrightarrow> newEntry st' el a = newEntry st el a"
  by (simp add: newEntry_def)

lemma fold_addToBucket_elements:
  assumes "bk_elements st a = Some el"
  shows "\<exists>rs. bk_elements (fold (\<lambda>key s. addToBucket s a key) keys st)
                = (bk_elements st)(a \<mapsto> el\<lparr>elem_removers := rs\<rparr>)"
  using assms
proof (induction keys arbitrary: st el)
  case Nil
  have "bk_elements st = (bk_elements st)(a \<mapsto> el\<lparr>elem_removers := elem_removers el\<rparr>)"
    using Nil by (simp add: fun_upd_idem)
  then show ?case unfolding fold.simps id_apply by (rule exI)
next
  case (Cons k ks)
  from addToBucket_elements [OF Cons.prems, of k] obtain rs where
    els: "bk_elements (addToBucket st a k) = (bk_elements st)(a \<mapsto> el\<lparr>elem_removers := rs\<rparr>)"
    by blast
  then have e1: "bk_elements (addToBucket st a k) a = Some (el\<lparr>elem_removers := rs\<rparr>)" by simp
  from Cons.IH [OF e1] obtain rs' where
    "bk_elements (fold (\<lambda>key s. addToBucket s a key) ks (addToBucket st a k))
       = (bk_elements (addToBucket st a k))(a \<mapsto> el\<lparr>elem_removers := rs, elem_removers := rs'\<rparr>)"
    by blast
  then have "bk_elements (fold (\<lambda>key s. addToBucket s a key) (k # ks) st)
       = (bk_elements st)(a \<mapsto> el\<lparr>elem_removers := rs'\<rparr>)"
    by (simp add: els)
  then show ?case by (rule exI)
qed

lemma fold_addToBucket_static:
  "bk_static (fold (\<lambda>key s. addToBucket s a key) keys st) = bk_static st"
  by (induction keys arbitrary: st) (simp_all add: addToBucket_static)

lemma fold_addToBucket_next:
  "bk_next (fold (\<lambda>key s. addToBucket s a key) keys st) = bk_next st"
  by (induction keys arbitrary: st) (simp_all add: addToBucket_next)

lemma fold_addToBucket_entries:
  assumes "bk_elements st a = Some el"
  shows "sectionEntries (fold (\<lambda>key s. addToBucket s a key) keys st) key' s
           = sectionEntries st key' s
             @ concat (map (\<lambda>key. if key' = key \<and> s = p2 (elem_p el) then [newEntry st el a] else []) keys)"
  using assms
proof (induction keys arbitrary: st el)
  case Nil
  then show ?case by simp
next
  case (Cons k ks)
  from addToBucket_elements [OF Cons.prems, of k] obtain rs where
    e1: "bk_elements (addToBucket st a k) a = Some (el\<lparr>elem_removers := rs\<rparr>)"
    by auto
  have ne: "newEntry (addToBucket st a k) (el\<lparr>elem_removers := rs\<rparr>) a = newEntry st el a"
    by (simp add: newEntry_static [OF addToBucket_static])
  have "sectionEntries (fold (\<lambda>key s. addToBucket s a key) (k # ks) st) key' s
        = sectionEntries (addToBucket st a k) key' s
          @ concat (map (\<lambda>key. if key' = key \<and> s = p2 (elem_p el) then [newEntry st el a] else []) ks)"
    using Cons.IH [OF e1] unfolding ne by simp
  then show ?case by (simp add: addToBucket_entries [OF Cons.prems])
qed

lemma fold_addToBucket_minS:
  assumes "bk_elements st a = Some el"
  shows "bucketMinS (fold (\<lambda>key s. addToBucket s a key) keys st) key'
              = (if key' \<in> set keys then min (bucketMinS st key') (p2 (elem_p el)) else bucketMinS st key')"
  using assms
proof (induction keys arbitrary: st el)
  case Nil
  then show ?case by simp
next
  case (Cons k ks)
  from addToBucket_elements [OF Cons.prems, of k] obtain rs where
    e1: "bk_elements (addToBucket st a k) a = Some (el\<lparr>elem_removers := rs\<rparr>)"
    by auto
  have "bucketMinS (fold (\<lambda>key s. addToBucket s a key) (k # ks) st) key'
        = (if key' \<in> set ks then min (bucketMinS (addToBucket st a k) key') (p2 (elem_p el))
           else bucketMinS (addToBucket st a k) key')"
    using Cons.IH [OF e1] by simp
  then show ?case by (auto simp: addToBucket_minS [OF Cons.prems])
qed

lemma fold_addToBucket_maxS:
  assumes "bk_elements st a = Some el"
  shows "bucketMaxS (fold (\<lambda>key s. addToBucket s a key) keys st) key'
              = (if key' \<in> set keys then max (bucketMaxS st key') (p2 (elem_p el)) else bucketMaxS st key')"
  using assms
proof (induction keys arbitrary: st el)
  case Nil
  then show ?case by simp
next
  case (Cons k ks)
  from addToBucket_elements [OF Cons.prems, of k] obtain rs where
    e1: "bk_elements (addToBucket st a k) a = Some (el\<lparr>elem_removers := rs\<rparr>)"
    by auto
  have "bucketMaxS (fold (\<lambda>key s. addToBucket s a key) (k # ks) st) key'
        = (if key' \<in> set ks then max (bucketMaxS (addToBucket st a k) key') (p2 (elem_p el))
           else bucketMaxS (addToBucket st a k) key')"
    using Cons.IH [OF e1] by simp
  then show ?case by (auto simp: addToBucket_maxS [OF Cons.prems])
qed


lemma concat_map_if_distinct:
  assumes "distinct keys"
  shows "concat (map (\<lambda>k. if key = k \<and> c then [x] else []) keys)
         = (if key \<in> set keys \<and> c then [x] else [])"
  using assms by (induction keys) auto

lemma distinct_bucketKeys: "distinct (bucketKeys v bi bj p w h)"
  by (simp add: bucketKeys_def Let_def)

lemma sectionEntries_elements_update [simp]:
  "sectionEntries (st\<lparr>bk_elements := els, bk_next := n\<rparr>) key s = sectionEntries st key s"
  by (simp add: sectionEntries_def)

lemma bucketMinS_elements_update [simp]:
  "bucketMinS (st\<lparr>bk_elements := els, bk_next := n\<rparr>) key = bucketMinS st key"
  by (simp add: bucketMinS_def)

lemma bucketMaxS_elements_update [simp]:
  "bucketMaxS (st\<lparr>bk_elements := els, bk_next := n\<rparr>) key = bucketMaxS st key"
  by (simp add: bucketMaxS_def)

lemma truncate_fields [simp]:
  "el_width (element_desc.truncate e) = el_width e"
  "el_height (element_desc.truncate e) = el_height e"
  "el_frames (element_desc.truncate e) = el_frames e"
  by (simp_all add: element_desc.truncate_def)

lemma fresh_no_entries:
  assumes "fresh st"
  shows "filter (\<lambda>e. e_p e = bk_next st) (sectionEntries st key s) = []"
proof -
  from assms have "\<forall>e \<in> set (sectionEntries st key s). e_p e < bk_next st"
    unfolding fresh_def by blast
  then show ?thesis by (auto simp: filter_empty_conv)
qed

lemma Element_unfold:
  assumes "el_frames element \<noteq> []"
  shows "Element v st element animation i j k now =
     (ElementAt (bk_next st),
      fold (\<lambda>key s. addToBucket s (bk_next st) key)
        (bucketKeys v (p1 (projectElement v element i j k) div int (v_height v))
           (p0 (projectElement v element i j k) div int (v_width v))
           (projectElement v element i j k) (el_width element) (el_height element))
        (st\<lparr>bk_elements := (bk_elements st)(bk_next st \<mapsto>
              \<lparr>elem_element = element_desc.truncate element, elem_animation = animation,
               elem_i = i, elem_j = j, elem_k = k, elem_p = projectElement v element i j k,
               elem_bi = p1 (projectElement v element i j k) div int (v_height v),
               elem_bj = p0 (projectElement v element i j k) div int (v_width v),
               elem_removers = [], elem_removed = False, elem_timeOffset = now\<rparr>),
            bk_next := bk_next st + 1\<rparr>))"
  using assms by (simp add: Element_def Let_def addToBuckets_def)

lemma Element_placed:
  assumes fr: "fresh st" and nz: "el_frames element \<noteq> []"
  shows "fst (Element v st element animation i j k now) = ElementAt (bk_next st)"
    and "placed v (snd (Element v st element animation i j k now)) (bk_next st)"
proof -
  define a where "a = bk_next st"
  define p where "p = projectElement v element i j k"
  define keys where "keys = bucketKeys v (p1 p div int (v_height v)) (p0 p div int (v_width v))
                              p (el_width element) (el_height element)"
  define el0 where "el0 = \<lparr>elem_element = element_desc.truncate element, elem_animation = animation,
               elem_i = i, elem_j = j, elem_k = k, elem_p = p,
               elem_bi = p1 p div int (v_height v), elem_bj = p0 p div int (v_width v),
               elem_removers = [], elem_removed = False, elem_timeOffset = now\<rparr>"
  define st0 where "st0 = st\<lparr>bk_elements := (bk_elements st)(a \<mapsto> el0), bk_next := a + 1\<rparr>"
  define st' where "st' = fold (\<lambda>key s. addToBucket s a key) keys st0"
  have E: "Element v st element animation i j k now = (ElementAt a, st')"
    unfolding Element_unfold [OF nz] st'_def st0_def el0_def keys_def p_def a_def by simp
  show "fst (Element v st element animation i j k now) = ElementAt (bk_next st)"
    by (simp add: E a_def)
  have e0: "bk_elements st0 a = Some el0" by (simp add: st0_def)
  have dk: "distinct keys" by (simp add: keys_def distinct_bucketKeys)
  have p0: "elem_p el0 = p" and w0: "el_width (elem_element el0) = el_width element"
    and h0: "el_height (elem_element el0) = el_height element"
    by (simp_all add: el0_def)
  from fold_addToBucket_elements [OF e0, of keys] obtain rs where
    els: "bk_elements st' a = Some (el0\<lparr>elem_removers := rs\<rparr>)"
    unfolding st'_def by auto
  have old: "filter (\<lambda>e. e_p e = a) (sectionEntries st0 key s) = []" for key s
    using fresh_no_entries [OF fr] by (simp add: st0_def a_def)
  have ent: "map (\<lambda>e. (e_width e, e_height e)) (filter (\<lambda>e. e_p e = a) (sectionEntries st' key s))
             = (if key \<in> set keys \<and> s = p2 p then [(el_width element, el_height element)] else [])" for key s
  proof -
    have "filter (\<lambda>e. e_p e = a) (sectionEntries st' key s)
          = filter (\<lambda>e. e_p e = a)
              (concat (map (\<lambda>k. if key = k \<and> s = p2 p then [newEntry st0 el0 a] else []) keys))"
      unfolding st'_def fold_addToBucket_entries [OF e0] by (simp add: old p0)
    also have "\<dots> = filter (\<lambda>e. e_p e = a) (if key \<in> set keys \<and> s = p2 p then [newEntry st0 el0 a] else [])"
      by (simp only: concat_map_if_distinct [OF dk])
    finally show ?thesis by (simp add: newEntry_def w0 h0)
  qed
  have rng: "bucketMinS st' key \<le> p2 p \<and> p2 p \<le> bucketMaxS st' key" if "key \<in> set keys" for key
    using that unfolding st'_def fold_addToBucket_minS [OF e0] fold_addToBucket_maxS [OF e0]
    by (simp add: p0)
  have "placed v st' a"
    unfolding placed_def using els ent rng
    by (simp add: Let_def p0 w0 h0 keys_def)
  then show "placed v (snd (Element v st element animation i j k now)) (bk_next st)"
    by (simp add: E a_def)
qed


text \<open>
  Claim C1, amended.  For an element that is registered as \<^verbatim>\<open>addToBuckets\<close> registers it
  at its current position (the state in which \<^verbatim>\<open>addTile\<close>, \<^verbatim>\<open>addEntity\<close> and
  \<^verbatim>\<open>replace\<close> leave their element) and that is no wider and no higher than a bucket (the
  canvas), and for every call of \<^verbatim>\<open>forEachElement\<close>: the action is invoked for the element
  at least once if and only if its projected bounding box meets the viewport rectangle.
\<close>

theorem placed_element_enumerated_iff_in_viewport:
  assumes "placed v st a" and "bk_elements st a = Some el"
    and "0 < v_width v" and "0 < v_height v"
    and "el_width (elem_element el) \<le> int (v_width v)"
    and "el_height (elem_element el) \<le> int (v_height v)"
  shows "(0 < invocations a (fst (forEachElement v st now)))
         = inViewport v (elem_p el) (el_width (elem_element el)) (el_height (elem_element el))"
proof (cases "inViewport v (elem_p el) (el_width (elem_element el)) (el_height (elem_element el))")
  case True
  from visible_registered_in_viewport_bucket [OF assms(3-6) True]
  have "filter (\<lambda>key. key \<in> set (bucketKeys v (p1 (elem_p el) div int (v_height v))
                          (p0 (elem_p el) div int (v_width v)) (elem_p el)
                          (el_width (elem_element el)) (el_height (elem_element el))))
                        (viewportKeys v) \<noteq> []"
    by (simp add: filter_empty_conv)
  with True show ?thesis
    by (simp add: invocations_placed [OF assms(1,2)])
next
  case False
  then show ?thesis by (simp add: invocations_placed [OF assms(1,2)])
qed

text \<open>
  Claim C10, amended.  For an element registered as \<^verbatim>\<open>addToBuckets\<close> registers it at its
  current position, of a size between 0 and the bucket size in both directions, whose
  bounding box meets the viewport: within one call of \<^verbatim>\<open>forEachElement\<close> the action is
  invoked for it once for each of the four queried buckets that its bounding box overlaps;
  this number is between 1 and 4.
\<close>

theorem invocations_per_overlapped_viewport_bucket:
  assumes "placed v st a" and "bk_elements st a = Some el"
    and "0 < v_width v" and "0 < v_height v"
    and "0 \<le> el_width (elem_element el)" and "el_width (elem_element el) \<le> int (v_width v)"
    and "0 \<le> el_height (elem_element el)" and "el_height (elem_element el) \<le> int (v_height v)"
    and "inViewport v (elem_p el) (el_width (elem_element el)) (el_height (elem_element el))"
  shows "invocations a (fst (forEachElement v st now))
           = length (filter (overlapsBucket v (elem_p el) (el_width (elem_element el))
                               (el_height (elem_element el))) (viewportKeys v))
         \<and> 1 \<le> invocations a (fst (forEachElement v st now))
         \<and> invocations a (fst (forEachElement v st now)) \<le> 4"
proof -
  let ?R = "bucketKeys v (p1 (elem_p el) div int (v_height v))
                          (p0 (elem_p el) div int (v_width v)) (elem_p el)
                          (el_width (elem_element el)) (el_height (elem_element el))"
  have n: "invocations a (fst (forEachElement v st now))
           = length (filter (\<lambda>key. key \<in> set ?R) (viewportKeys v))"
    using assms(9) by (simp add: invocations_placed [OF assms(1,2)])
  have eq: "(\<lambda>key. key \<in> set ?R)
            = overlapsBucket v (elem_p el) (el_width (elem_element el)) (el_height (elem_element el))"
    by (rule ext) (rule bucketKeys_overlap [OF assms(3,4,5,6,7,8)])
  from visible_registered_in_viewport_bucket [OF assms(3,4,6,8,9)]
  have "filter (\<lambda>key. key \<in> set ?R) (viewportKeys v) \<noteq> []"
    by (simp add: filter_empty_conv)
  then have one: "1 \<le> length (filter (\<lambda>key. key \<in> set ?R) (viewportKeys v))"
    by (cases "filter (\<lambda>key. key \<in> set ?R) (viewportKeys v)") simp_all
  have "length (filter (\<lambda>key. key \<in> set ?R) (viewportKeys v)) \<le> length (viewportKeys v)"
    by (rule length_filter_le)
  also have "\<dots> = 4" by (simp add: viewportKeys_def Let_def)
  finally have four: "length (filter (\<lambda>key. key \<in> set ?R) (viewportKeys v)) \<le> 4" .
  from n one four show ?thesis unfolding eq by simp
qed

lemma fresh_Buckets_new: "fresh (Buckets_new d)"
  by (simp add: fresh_def sectionEntries_def Buckets_new_def)

lemma placed_same_size:
  assumes "v_width v' = v_width v" and "v_height v' = v_height v"
  shows "placed v' st a = placed v st a"
proof -
  have bk: "bucketKeys v' = bucketKeys v"
    by (intro ext) (simp add: bucketKeys_def assms)
  show ?thesis unfolding placed_def assms bk by (rule refl)
qed

lemma addEntity_placed:
  assumes "fresh st" and "entities d n = Some entity" and "el_frames entity \<noteq> []"
  shows "fst (addEntity v d st n i j k now) = Inr (ElementAt (bk_next st))"
    and "placed v (snd (addEntity v d st n i j k now)) (bk_next st)"
proof -
  let ?st1 = "st\<lparr>bk_static := (bk_static st)(EntityAnim n := False)\<rparr>"
  have fr: "fresh ?st1" using assms(1) by (simp add: fresh_def sectionEntries_def)
  have nx: "bk_next ?st1 = bk_next st" by simp
  have a: "addEntity v d st n i j k now
           = (Inr (fst (Element v ?st1 entity (EntityAnim n) i j k now)),
              snd (Element v ?st1 entity (EntityAnim n) i j k now))"
    using assms(2) by (simp add: addEntity_def split_beta Let_def)
  from Element_placed [OF fr assms(3), of v "EntityAnim n" i j k now]
  show "fst (addEntity v d st n i j k now) = Inr (ElementAt (bk_next st))"
    and "placed v (snd (addEntity v d st n i j k now)) (bk_next st)"
    unfolding a nx by simp_all
qed

lemma stage_entity_1: "entities stage_data 1 = Some \<lparr>el_frames = [\<lparr>fid = 7, duration = None\<rparr>],
    el_width = 10, el_height = 10, el_offset_x = 0, el_offset_y = 0\<rparr>"
  by (simp add: stage_data_def)

lemma entity_added_placed: "placed (stage_view 0 0) entity_added 0"
proof -
  have "placed (stage_view 0 0) (snd (addEntity (stage_view 0 0) stage_data stage_buckets 1 0 0 0 0))
          (bk_next stage_buckets)"
    unfolding stage_buckets_def
    by (rule addEntity_placed(2) [OF fresh_Buckets_new stage_entity_1]) simp
  then show ?thesis by (simp add: entity_added_def stage_buckets_def Buckets_new_def)
qed

lemma straddling_added_placed: "placed (stage_view 0 0) straddling_added 0"
proof -
  have "placed (stage_view 0 0) (snd (addEntity (stage_view 0 0) stage_data stage_buckets 1 95 0 0 0))
          (bk_next stage_buckets)"
    unfolding stage_buckets_def
    by (rule addEntity_placed(2) [OF fresh_Buckets_new stage_entity_1]) simp
  then show ?thesis by (simp add: straddling_added_def stage_buckets_def Buckets_new_def)
qed

lemma placed_element: "placed v st a \<Longrightarrow> \<exists>el. bk_elements st a = Some el"
  by (cases "bk_elements st a") (simp_all add: placed_def)

theorem placed_element_enumerated_iff_in_viewport_witness:
  "placed (stage_view 0 0) entity_added 0
   \<and> (0 < invocations 0 (fst (forEachElement (stage_view 0 0) entity_added 0)))
       = inViewport (stage_view 0 0) (0, 0, 0) 10 10
   \<and> inViewport (stage_view 0 0) (0, 0, 0) 10 10"
proof -
  from placed_element [OF entity_added_placed] obtain el where
    el: "bk_elements entity_added 0 = Some el" by blast
  have "map_option (\<lambda>el. (elem_p el, el_width (elem_element el), el_height (elem_element el)))
          (bk_elements entity_added 0) = Some ((0, 0, 0), 10, 10)"
    by code_simp
  with el have f: "elem_p el = (0, 0, 0)" "el_width (elem_element el) = 10"
    "el_height (elem_element el) = 10" by simp_all
  have "(0 < invocations 0 (fst (forEachElement (stage_view 0 0) entity_added 0)))
       = inViewport (stage_view 0 0) (elem_p el) (el_width (elem_element el)) (el_height (elem_element el))"
    by (rule placed_element_enumerated_iff_in_viewport [OF entity_added_placed el])
       (simp_all add: f stage_view_def)
  moreover have "inViewport (stage_view 0 0) (0, 0, 0) 10 10" by code_simp
  ultimately show ?thesis using entity_added_placed by (simp add: f)
qed

text \<open>
  Claim C1 as stated fails: entity 2, 150 pixels wide, is placed at \<open>x = 60\<close> and so
  registered in the bucket columns 0 and 1 only; with the viewport at \<open>x = 200\<close> (columns 2
  and 3 are queried) its bounding box \<open>[60, 210]\<close> meets the viewport, and the action is
  not invoked for it.
\<close>

theorem wide_element_not_enumerated_counterexample:
  "projectedPosition wide_added 0 = Some (60, 0, 0)
   \<and> inViewport (stage_view (- 200) 0) (60, 0, 0) 150 10
   \<and> invocations 0 (fst (forEachElement (stage_view (- 200) 0) wide_added 0)) = 0"
  by code_simp

theorem invocations_per_overlapped_viewport_bucket_witness:
  "placed (stage_view 0 0) straddling_added 0
   \<and> invocations 0 (fst (forEachElement (stage_view 0 0) straddling_added 0))
       = length (filter (overlapsBucket (stage_view 0 0) (95, 0, 0) 10 10)
                   (viewportKeys (stage_view 0 0)))
   \<and> invocations 0 (fst (forEachElement (stage_view 0 0) straddling_added 0)) = 2"
proof -
  from placed_element [OF straddling_added_placed] obtain el where
    el: "bk_elements straddling_added 0 = Some el" by blast
  have "map_option (\<lambda>el. (elem_p el, el_width (elem_element el), el_height (elem_element el)))
          (bk_elements straddling_added 0) = Some ((95, 0, 0), 10, 10)"
    by code_simp
  with el have f: "elem_p el = (95, 0, 0)" "el_width (elem_element el) = 10"
    "el_height (elem_element el) = 10" by simp_all
  have vis: "inViewport (stage_view 0 0) (95, 0, 0) 10 10" by code_simp
  have "invocations 0 (fst (forEachElement (stage_view 0 0) straddling_added 0))
           = length (filter (overlapsBucket (stage_view 0 0) (elem_p el) (el_width (elem_element el))
                               (el_height (elem_element el))) (viewportKeys (stage_view 0 0)))"
    by (rule invocations_per_overlapped_viewport_bucket [OF straddling_added_placed el, THEN conjunct1])
       (simp_all add: f vis, simp_all add: stage_view_def)
  moreover have "length (filter (overlapsBucket (stage_view 0 0) (95, 0, 0) 10 10)
                   (viewportKeys (stage_view 0 0))) = 2"
    by code_simp
  ultimately show ?thesis using straddling_added_placed by (simp add: f)
qed

text \<open>
  Claim C10 as stated fails: the bounding box \<open>[60, 210]\<close> of the wide entity 2 meets the
  viewport at \<open>x = 100\<close> and overlaps two of the four queried buckets (columns 1 and 2 of
  row 0), but the entity is registered in the columns 0 and 1 only, and the action is
  invoked once.
\<close>

theorem wide_element_invoked_once_counterexample:
  "inViewport (stage_view (- 100) 0) (60, 0, 0) 150 10
   \<and> length (filter (overlapsBucket (stage_view (- 100) 0) (60, 0, 0) 150 10)
               (viewportKeys (stage_view (- 100) 0))) = 2
   \<and> invocations 0 (fst (forEachElement (stage_view (- 100) 0) wide_added 0)) = 1"
  by code_simp


subsection \<open>Moving an element\<close>

text \<open>
  Claim C2 fails on the code.  \<^verbatim>\<open>updatePosition\<close> decides about re-bucketing from the
  position stored before the call: the entity moved from \<open>x = 0\<close> to \<open>x = 250\<close> stays
  registered in bucket \<open>(0, 0)\<close> alone, which its new bounding box does not overlap, while
  it overlaps bucket \<open>(0, 2)\<close>; \<^verbatim>\<open>forEachElement\<close> with the viewport at \<open>x = 200\<close> does not
  enumerate it although it is in the viewport.  Only a second call moves the registration.
\<close>

theorem updatePosition_keeps_stale_registration:
  "projectedPosition entity_added 0 = Some (0, 0, 0)
   \<and> registeredBuckets entity_added 0 = Some [(0, 0)]
   \<and> projectedPosition entity_moved 0 = Some (250, 0, 0)
   \<and> registeredBuckets entity_moved 0 = Some [(0, 0)]
   \<and> overlapsBucket (stage_view 0 0) (250, 0, 0) 10 10 (0, 0) = False
   \<and> overlapsBucket (stage_view 0 0) (250, 0, 0) 10 10 (0, 2) = True
   \<and> inViewport (stage_view (- 200) 0) (250, 0, 0) 10 10 = True
   \<and> fst (forEachElement (stage_view (- 200) 0) entity_moved 0) = []
   \<and> registeredBuckets entity_moved_again 0 = Some [(0, 2)]"
  by code_simp

subsection \<open>Adding and removing tiles\<close>

text \<open>
  Claim C7 fails on the code.  For the mutable tile 3 \<^verbatim>\<open>addTile\<close> returns \<^verbatim>\<open>undefined\<close>,
  not a remover; for the fixed tile 1 it returns the remover of the new element.
\<close>

theorem addTile_mutable_returns_undefined:
  "map_option mutable (tiles stage_data 3) = Some True
   \<and> fst mutable_tile_added = Inr None
   \<and> map_option mutable (tiles stage_data 1) = Some False
   \<and> fst fixed_tile_added = Inr (Some (ElementAt 0))"
  by code_simp

lemma callRemover_elements: "bk_elements (callRemover r st) = bk_elements st"
  by (simp add: callRemover_def split: option.splits)

lemma fold_callRemover_elements: "bk_elements (fold callRemover rs st) = bk_elements st"
  by (induction rs arbitrary: st) (simp_all add: callRemover_elements)

text \<open>The remover of an element returns \<^verbatim>\<open>true\<close>, and a second call changes nothing.\<close>

lemma Element_remove_idempotent:
  "Element_remove (Element_remove st a) a = Element_remove st a"
proof (cases "bk_elements st a")
  case None
  then show ?thesis by (simp add: Element_remove_def)
next
  case (Some el)
  then have "bk_elements (Element_remove st a) a = Some (el\<lparr>elem_removers := [], elem_removed := True\<rparr>)"
    by (simp add: Element_remove_def Let_def)
  then show ?thesis
    by (simp add: Element_remove_def [of "Element_remove st a"] Let_def fun_upd_idem)
qed

lemma bound_remover_returns_true_and_is_idempotent:
  "fst (callBoundRemover st (ElementAt a)) = Some True
   \<and> callBoundRemover (snd (callBoundRemover st (ElementAt a))) (ElementAt a)
       = (Some True, snd (callBoundRemover st (ElementAt a)))"
  by (simp add: callBoundRemover_def Element_remove_idempotent)

lemma addTile_fixed_returns_remover:
  assumes "tiles d n = Some tile" and "\<not> mutable tile" and "el_frames tile \<noteq> []"
  shows "fst (addTile v d st n i j k now) = Inr (Some (ElementAt (bk_next st)))"
  using assms by (simp add: addTile_def Let_def split_beta Element_def)

lemma addTile_mutable_returns_nothing:
  assumes "tiles d n = Some tile" and "mutable tile"
  shows "fst (addTile v d st n i j k now) = Inr None"
  using assms by (simp add: addTile_def Let_def split_beta)

subsection \<open>Unknown ids\<close>

text \<open>
  Claim C6 as stated fails: \<^verbatim>\<open>replaceTile\<close> with the unknown tile id 99, at a position
  where no mutable tile is registered, returns \<^verbatim>\<open>undefined\<close> and signals nothing.
\<close>

theorem replaceTile_unknown_id_silent_counterexample:
  "tiles stage_data 99 = None
   \<and> replaceTile (stage_view 0 0) stage_data stage_buckets 0 0 0 99 0 = (Inr None, stage_buckets)"
  by (simp add: stage_data_def replaceTile_def stage_buckets_def Buckets_new_def Matrix_get_def
      Matrix_new_def)

text \<open>
  Claim C6, amended.  \<^verbatim>\<open>addTile\<close>, \<^verbatim>\<open>addEntity\<close> and \<^verbatim>\<open>putAt\<close>, and \<^verbatim>\<open>replace\<close> on an
  element that is not removed, signal an unknown id at once, with the id, and leave the
  state as it was.  \<^verbatim>\<open>replaceTile\<close> signals an unknown tile id, with the id, exactly
  when a mutable tile is registered at the position; without one it returns \<^verbatim>\<open>undefined\<close>
  and leaves the state as it was, and so does \<^verbatim>\<open>replace\<close> on a removed element and on a
  \<^verbatim>\<open>MockElement\<close>.
\<close>

theorem unknown_id_signalled:
  "(tiles d n = None \<longrightarrow> addTile v d st n i j k now = (Inl (InvalidTileId n), st))
   \<and> (entities d n = None \<longrightarrow> addEntity v d st n x y z now = (Inl (InvalidEntityId n), st))
   \<and> (tiles d n = None \<longrightarrow> putAt v d tm i j k n now = (Inl (InvalidTileId n), tm))
   \<and> (entities d n = None \<and> bk_elements st a = Some el \<and> \<not> elem_removed el
        \<longrightarrow> replace v d st (ElementAt a) n now = (Inl (InvalidEntityId n), st))
   \<and> (tiles d n = None
        \<longrightarrow> (fst (replaceTile v d st i j k n now) = Inl (InvalidTileId n))
            = Matrix_has (bk_eraser st) i j k)
   \<and> (\<not> Matrix_has (bk_eraser st) i j k
        \<longrightarrow> replaceTile v d st i j k n now = (Inr None, st))
   \<and> (bk_elements st a = Some el \<and> elem_removed el
        \<longrightarrow> replace v d st (ElementAt a) n now = (Inr None, st))
   \<and> replace v d st Mock n now = (Inr None, st)"
  by (auto simp: addTile_def addEntity_def putAt_def replace_def replaceTile_def
      Matrix_has_def Matrix_get_def split: option.splits)

theorem unknown_id_signalled_witness:
  "addTile (stage_view 0 0) stage_data stage_buckets 99 0 0 0 0
     = (Inl (InvalidTileId 99), stage_buckets)
   \<and> addEntity (stage_view 0 0) stage_data stage_buckets 99 0 0 0 0
     = (Inl (InvalidEntityId 99), stage_buckets)
   \<and> replace (stage_view 0 0) stage_data entity_added (ElementAt 0) 99 0
     = (Inl (InvalidEntityId 99), entity_added)
   \<and> fst (replaceTile (stage_view 0 0) stage_data (snd mutable_tile_added) 0 0 0 99 0)
     = Inl (InvalidTileId 99)"
proof -
  have t: "tiles stage_data 99 = None" and e: "entities stage_data 99 = None"
    by (simp_all add: stage_data_def)
  have "map_option elem_removed (bk_elements entity_added 0) = Some False"
    by code_simp
  then obtain el where el: "bk_elements entity_added 0 = Some el" "\<not> elem_removed el"
    by auto
  have has: "Matrix_has (bk_eraser (snd mutable_tile_added)) 0 0 0"
    by code_simp
  note th = unknown_id_signalled [where d = stage_data and n = 99 and v = "stage_view 0 0"
      and i = 0 and j = 0 and k = 0 and now = 0 and x = 0 and y = 0 and z = 0]
  have c1: "addTile (stage_view 0 0) stage_data stage_buckets 99 0 0 0 0
     = (Inl (InvalidTileId 99), stage_buckets)"
    using th [where st = stage_buckets, THEN conjunct1] t by blast
  have c2: "addEntity (stage_view 0 0) stage_data stage_buckets 99 0 0 0 0
     = (Inl (InvalidEntityId 99), stage_buckets)"
    using th [where st = stage_buckets, THEN conjunct2, THEN conjunct1] e by blast
  have c3: "replace (stage_view 0 0) stage_data entity_added (ElementAt 0) 99 0
     = (Inl (InvalidEntityId 99), entity_added)"
    using th [where st = entity_added and a = 0 and el = el,
        THEN conjunct2, THEN conjunct2, THEN conjunct2, THEN conjunct1] e el by blast
  have c4: "fst (replaceTile (stage_view 0 0) stage_data (snd mutable_tile_added) 0 0 0 99 0)
     = Inl (InvalidTileId 99)"
    using th [where st = "snd mutable_tile_added",
        THEN conjunct2, THEN conjunct2, THEN conjunct2, THEN conjunct2, THEN conjunct1] t has
    by blast
  from c1 c2 c3 c4 show ?thesis by (intro conjI)
qed

text \<open>When \<^verbatim>\<open>replaceTile\<close> does signal the unknown id, the mutable tile that was registered
  at the position has already been removed.\<close>

lemma replaceTile_unknown_id_after_removal:
  "fst replaced_by_unknown = Inl (InvalidTileId 99)
   \<and> Matrix_has (bk_eraser (snd mutable_tile_added)) 0 0 0 = True
   \<and> Matrix_has (bk_eraser (snd replaced_by_unknown)) 0 0 0 = False
   \<and> invocations 0 (fst (forEachElement (stage_view 0 0) (snd mutable_tile_added) 0)) = 1
   \<and> invocations 0 (fst (forEachElement (stage_view 0 0) (snd replaced_by_unknown) 0)) = 0"
  by code_simp

subsection \<open>putAt\<close>

text \<open>
  Claim C4 fails on the code.  In the map whose only tile is the fixed tile 1 in cell
  \<open>(0, 1)\<close>, \<^verbatim>\<open>putAt(0, 0, 0, 2)\<close> for the tile 2 covering \<open>(0, 0)\<close> and \<open>(0, 1)\<close> does not
  return \<^verbatim>\<open>false\<close>: \<^verbatim>\<open>canClear\<close> throws a \<^verbatim>\<open>TypeError\<close> on the empty cell \<open>(0, 0)\<close>
  before the fixed tile is looked at.
\<close>

theorem putAt_throws_on_empty_cell_before_fixed_tile:
  "map_sum (\<lambda>e. e) (\<lambda>tm. (Matrix_get (tm_matrix tm) 0 0 0, Matrix_get (tm_matrix tm) 0 1 0,
                 fst (putAt (stage_view 0 0) stage_data tm 0 0 0 2 0))) fixed_tile_map
     = Inr (None, Some (TileId 1), Inl TypeError)
   \<and> map_option mutable (tiles stage_data 1) = Some False
   \<and> map_option (\<lambda>t. coveredCells (tile_layout t) 0 0) (tiles stage_data 2) = Some [(0, 0), (0, 1)]"
  by code_simp

text \<open>What holds of the claim: when a covered cell holds a tile that is not mutable,
  \<^verbatim>\<open>putAt\<close> does not return \<^verbatim>\<open>true\<close>, and it leaves the map and the buckets as they were.\<close>

lemma canClearAll_blocked:
  assumes "(i1, j1) \<in> set cells" and "canClear d m k i1 j1 = Inr False"
  shows "canClearAll d m k cells \<noteq> Inr True"
  using assms
proof (induction cells)
  case Nil
  then show ?case by simp
next
  case (Cons c cells)
  obtain ci cj where c: "c = (ci, cj)" by (cases c)
  show ?case
  proof (cases "canClear d m k ci cj")
    case (Inl e)
    then show ?thesis by (simp add: c)
  next
    case (Inr b)
    show ?thesis
    proof (cases b)
      case False
      with Inr show ?thesis by (simp add: c)
    next
      case True
      with Inr Cons.prems c have "(i1, j1) \<in> set cells" by auto
      from Cons.IH [OF this Cons.prems(2)] Inr True show ?thesis by (simp add: c)
    qed
  qed
qed

lemma putAt_blocked_leaves_map_unchanged:
  assumes "tiles d n = Some tile" and "(i1, j1) \<in> set (coveredCells (tile_layout tile) i j)"
    and "tileAt d (tm_matrix tm) i1 j1 k = Inr t" and "\<not> mutable t"
  shows "snd (putAt v d tm i j k n now) = tm \<and> fst (putAt v d tm i j k n now) \<noteq> Inr True"
proof -
  from assms(3,4) have "canClear d (tm_matrix tm) k i1 j1 = Inr False"
    by (simp add: canClear_def)
  from canClearAll_blocked [OF assms(2) this]
  have "canClearAll d (tm_matrix tm) k (coveredCells (tile_layout tile) i j) \<noteq> Inr True" .
  with assms(1) show ?thesis
    by (auto simp: putAt_def Let_def split: sum.splits bool.splits)
qed


section \<open>The invariant of the buckets\<close>

lemma sectionEntries_pairs: "sectionEntries st key s = map snd (sectionPairs st key s)"
  by (simp add: sectionEntries_def sectionPairs_def enumerateSection_def MultiSet_fastForEach_def
      split: option.splits)

lemma consistentD:
  assumes "consistent st"
  shows "bk_next st \<le> a \<Longrightarrow> bk_elements st a = None"
    and "x \<in> set (sectionPairs st key s) \<Longrightarrow> fst x < sectionNextId st key s"
    and "x \<in> set (sectionPairs st key s) \<Longrightarrow> bk_elements st (e_p (snd x)) \<noteq> None"
    and "distinct (map fst (sectionPairs st key s))"
    and "bk_elements st a = Some el \<Longrightarrow> entryIds st a key s = removerIds el key s"
  using assms unfolding consistent_def by blast+

lemma consistentI:
  assumes "\<And>a. bk_next st \<le> a \<Longrightarrow> bk_elements st a = None"
    and "\<And>key s x. x \<in> set (sectionPairs st key s) \<Longrightarrow> fst x < sectionNextId st key s"
    and "\<And>key s x. x \<in> set (sectionPairs st key s) \<Longrightarrow> bk_elements st (e_p (snd x)) \<noteq> None"
    and "\<And>key s. distinct (map fst (sectionPairs st key s))"
    and "\<And>a el key s. bk_elements st a = Some el \<Longrightarrow> entryIds st a key s = removerIds el key s"
  shows "consistent st"
  unfolding consistent_def using assms by blast

lemma consistent_fresh:
  assumes "consistent st"
  shows "fresh st"
  unfolding fresh_def
proof (intro allI ballI)
  fix key s e assume "e \<in> set (sectionEntries st key s)"
  then obtain x where x: "x \<in> set (sectionPairs st key s)" "e = snd x"
    by (auto simp: sectionEntries_pairs)
  from consistentD(3) [OF assms x(1)] consistentD(1) [OF assms, of "e_p e"] x(2)
  show "e_p e < bk_next st" by (cases "bk_next st \<le> e_p e") auto
qed

lemma keepsD:
  assumes "keeps a st st'"
  shows "bk_elements st' a = bk_elements st a"
    and "filter (\<lambda>e. e_p e = a) (sectionEntries st' key s) = filter (\<lambda>e. e_p e = a) (sectionEntries st key s)"
    and "bucketMinS st' key \<le> bucketMinS st key"
    and "bucketMaxS st key \<le> bucketMaxS st' key"
  using assms unfolding keeps_def by blast+

lemma keepsI:
  assumes "bk_elements st' a = bk_elements st a"
    and "\<And>key s. filter (\<lambda>e. e_p e = a) (sectionEntries st' key s) = filter (\<lambda>e. e_p e = a) (sectionEntries st key s)"
    and "\<And>key. bucketMinS st' key \<le> bucketMinS st key"
    and "\<And>key. bucketMaxS st key \<le> bucketMaxS st' key"
  shows "keeps a st st'"
  unfolding keeps_def using assms by blast

lemma keeps_refl: "keeps a st st"
  by (rule keepsI) simp_all

lemma keeps_trans:
  assumes "keeps a st st1" and "keeps a st1 st2"
  shows "keeps a st st2"
proof (rule keepsI)
  show "bk_elements st2 a = bk_elements st a"
    using keepsD(1) [OF assms(1)] keepsD(1) [OF assms(2)] by simp
  show "filter (\<lambda>e. e_p e = a) (sectionEntries st2 key s) = filter (\<lambda>e. e_p e = a) (sectionEntries st key s)" for key s
    using keepsD(2) [OF assms(1)] keepsD(2) [OF assms(2)] by simp
  show "bucketMinS st2 key \<le> bucketMinS st key" for key
    using keepsD(3) [OF assms(1), of key] keepsD(3) [OF assms(2), of key] by linarith
  show "bucketMaxS st key \<le> bucketMaxS st2 key" for key
    using keepsD(4) [OF assms(1), of key] keepsD(4) [OF assms(2), of key] by linarith
qed

lemma placed_keeps:
  assumes pl: "placed v st a" and k: "keeps a st st'"
  shows "placed v st' a"
proof -
  from pl obtain el where el: "bk_elements st a = Some el"
    by (cases "bk_elements st a") (simp_all add: placed_def)
  define p where "p = elem_p el"
  define w where "w = el_width (elem_element el)"
  define h where "h = el_height (elem_element el)"
  define R where "R = bucketKeys v (p1 p div int (v_height v)) (p0 p div int (v_width v)) p w h"
  from pl el have both: "(\<forall>key s. map (\<lambda>e. (e_width e, e_height e))
                           (filter (\<lambda>e. e_p e = a) (sectionEntries st key s))
                        = (if key \<in> set R \<and> s = p2 p then [(w, h)] else []))
      \<and> (\<forall>key \<in> set R. bucketMinS st key \<le> p2 p \<and> p2 p \<le> bucketMaxS st key)"
    unfolding placed_def p_def w_def h_def R_def by (simp add: Let_def)
  have el': "bk_elements st' a = Some el" using keepsD(1) [OF k] el by simp
  have r1: "map (\<lambda>e. (e_width e, e_height e)) (filter (\<lambda>e. e_p e = a) (sectionEntries st' key s))
            = (if key \<in> set R \<and> s = p2 p then [(w, h)] else [])" for key s
    unfolding keepsD(2) [OF k] using both by blast
  have r2: "bucketMinS st' key \<le> p2 p \<and> p2 p \<le> bucketMaxS st' key" if "key \<in> set R" for key
    using both that keepsD(3) [OF k, of key] keepsD(4) [OF k, of key] by force
  have "(\<forall>key s. map (\<lambda>e. (e_width e, e_height e))
                           (filter (\<lambda>e. e_p e = a) (sectionEntries st' key s))
                        = (if key \<in> set R \<and> s = p2 p then [(w, h)] else []))
      \<and> (\<forall>key \<in> set R. bucketMinS st' key \<le> p2 p \<and> p2 p \<le> bucketMaxS st' key)"
    using r1 r2 by blast
  then show ?thesis
    unfolding placed_def el' p_def w_def h_def R_def by (simp add: Let_def)
qed


subsection \<open>The steps on the multisets\<close>

lemma addToBucket_pairs:
  assumes "bk_elements st a = Some el"
  shows "sectionPairs (addToBucket st a key) key' s
         = sectionPairs st key' s
           @ (if key' = key \<and> s = p2 (elem_p el)
              then [(sectionNextId st key (p2 (elem_p el)), newEntry st el a)] else [])"
  using assms
  by (simp add: addToBucket_def getBucket_def Bucket_add_def MultiSet_add_def MultiSet_new_def
      Bucket_new_def sectionPairs_def sectionNextId_def newEntry_def Let_def split: option.splits)

lemma addToBucket_nextId:
  assumes "bk_elements st a = Some el"
  shows "sectionNextId (addToBucket st a key) key' s
         = (if key' = key \<and> s = p2 (elem_p el) then sectionNextId st key s + 1
            else sectionNextId st key' s)"
  using assms
  by (simp add: addToBucket_def getBucket_def Bucket_add_def MultiSet_add_def MultiSet_new_def
      Bucket_new_def sectionNextId_def Let_def split: option.splits)

lemma addToBucket_remover:
  assumes "bk_elements st a = Some el"
  shows "bk_elements (addToBucket st a key)
         = (bk_elements st)(a \<mapsto> el\<lparr>elem_removers := elem_removers el
               @ [\<lparr>rm_bucket = key, rm_section = p2 (elem_p el),
                   rm_id = sectionNextId st key (p2 (elem_p el))\<rparr>]\<rparr>)"
  using assms
  by (simp add: addToBucket_def getBucket_def Bucket_add_def MultiSet_add_def MultiSet_new_def
      Bucket_new_def sectionNextId_def Let_def split: option.splits)

lemma addToBucket_none: "bk_elements st a = None \<Longrightarrow> addToBucket st a key = st"
  by (simp add: addToBucket_def)

lemma callRemover_pairs:
  "sectionPairs (callRemover r st) key s
   = (if key = rm_bucket r \<and> s = rm_section r
      then filter (\<lambda>x. fst x \<noteq> rm_id r) (sectionPairs st key s)
      else sectionPairs st key s)"
proof -
  have id: "filter (\<lambda>x. fst x \<noteq> n) xs = xs" if "n \<notin> fst ` set xs" for n and xs :: "(nat \<times> entry) list"
    using that by (induction xs) auto
  have cp: "(\<lambda>(m, e). m \<noteq> n) = (\<lambda>x. fst x \<noteq> n)" for n :: nat
    by (simp add: fun_eq_iff)
  show ?thesis
    by (auto simp: callRemover_def sectionPairs_def MultiSet_remove_def cp id
        split: option.splits)
qed

lemma callRemover_nextId: "sectionNextId (callRemover r st) key s = sectionNextId st key s"
  by (auto simp: callRemover_def sectionNextId_def MultiSet_remove_def split: option.splits)

lemma callRemover_minS: "bucketMinS (callRemover r st) key = bucketMinS st key"
  and callRemover_maxS: "bucketMaxS (callRemover r st) key = bucketMaxS st key"
  and callRemover_next: "bk_next (callRemover r st) = bk_next st"
  and callRemover_static: "bk_static (callRemover r st) = bk_static st"
  and callRemover_eraser: "bk_eraser (callRemover r st) = bk_eraser st"
  by (auto simp: callRemover_def bucketMinS_def bucketMaxS_def split: option.splits)

lemma fold_callRemover_pairs:
  "sectionPairs (fold callRemover rs st) key s
   = filter (\<lambda>x. fst x \<notin> set (map rm_id (filter (\<lambda>r. rm_bucket r = key \<and> rm_section r = s) rs)))
       (sectionPairs st key s)"
proof (induction rs arbitrary: st)
  case Nil
  then show ?case by simp
next
  case (Cons r rs)
  show ?case
    unfolding fold_simps Cons.IH callRemover_pairs
    by (auto intro: filter_cong)
qed

lemma fold_callRemover_nextId: "sectionNextId (fold callRemover rs st) key s = sectionNextId st key s"
  by (induction rs arbitrary: st) (simp_all add: callRemover_nextId)

lemma fold_callRemover_minS: "bucketMinS (fold callRemover rs st) key = bucketMinS st key"
  by (induction rs arbitrary: st) (simp_all add: callRemover_minS)

lemma fold_callRemover_maxS: "bucketMaxS (fold callRemover rs st) key = bucketMaxS st key"
  by (induction rs arbitrary: st) (simp_all add: callRemover_maxS)

lemma fold_callRemover_next: "bk_next (fold callRemover rs st) = bk_next st"
  by (induction rs arbitrary: st) (simp_all add: callRemover_next)

lemma fold_callRemover_static: "bk_static (fold callRemover rs st) = bk_static st"
  by (induction rs arbitrary: st) (simp_all add: callRemover_static)

lemma fold_callRemover_eraser: "bk_eraser (fold callRemover rs st) = bk_eraser st"
  by (induction rs arbitrary: st) (simp_all add: callRemover_eraser)


subsection \<open>Fields the invariant does not read\<close>

lemma sectionPairs_frame [simp]:
  "sectionPairs (st\<lparr>bk_elements := els\<rparr>) = sectionPairs st"
  "sectionPairs (st\<lparr>bk_static := sta\<rparr>) = sectionPairs st"
  "sectionPairs (st\<lparr>bk_eraser := era\<rparr>) = sectionPairs st"
  "sectionPairs (st\<lparr>bk_next := nxt\<rparr>) = sectionPairs st"
  by (simp_all add: sectionPairs_def fun_eq_iff)

lemma sectionNextId_frame [simp]:
  "sectionNextId (st\<lparr>bk_elements := els\<rparr>) = sectionNextId st"
  "sectionNextId (st\<lparr>bk_static := sta\<rparr>) = sectionNextId st"
  "sectionNextId (st\<lparr>bk_eraser := era\<rparr>) = sectionNextId st"
  "sectionNextId (st\<lparr>bk_next := nxt\<rparr>) = sectionNextId st"
  by (simp_all add: sectionNextId_def fun_eq_iff)

lemma sectionEntries_frame [simp]:
  "sectionEntries (st\<lparr>bk_elements := els\<rparr>) = sectionEntries st"
  "sectionEntries (st\<lparr>bk_static := sta\<rparr>) = sectionEntries st"
  "sectionEntries (st\<lparr>bk_eraser := era\<rparr>) = sectionEntries st"
  "sectionEntries (st\<lparr>bk_next := nxt\<rparr>) = sectionEntries st"
  by (simp_all add: sectionEntries_def fun_eq_iff)

lemma bucketMinS_frame [simp]:
  "bucketMinS (st\<lparr>bk_elements := els\<rparr>) = bucketMinS st"
  "bucketMinS (st\<lparr>bk_static := sta\<rparr>) = bucketMinS st"
  "bucketMinS (st\<lparr>bk_eraser := era\<rparr>) = bucketMinS st"
  "bucketMinS (st\<lparr>bk_next := nxt\<rparr>) = bucketMinS st"
  by (simp_all add: bucketMinS_def fun_eq_iff)

lemma bucketMaxS_frame [simp]:
  "bucketMaxS (st\<lparr>bk_elements := els\<rparr>) = bucketMaxS st"
  "bucketMaxS (st\<lparr>bk_static := sta\<rparr>) = bucketMaxS st"
  "bucketMaxS (st\<lparr>bk_eraser := era\<rparr>) = bucketMaxS st"
  "bucketMaxS (st\<lparr>bk_next := nxt\<rparr>) = bucketMaxS st"
  by (simp_all add: bucketMaxS_def fun_eq_iff)

lemma entryIds_frame [simp]:
  "entryIds (st\<lparr>bk_elements := els\<rparr>) = entryIds st"
  "entryIds (st\<lparr>bk_static := sta\<rparr>) = entryIds st"
  "entryIds (st\<lparr>bk_eraser := era\<rparr>) = entryIds st"
  "entryIds (st\<lparr>bk_next := nxt\<rparr>) = entryIds st"
  by (simp_all add: entryIds_def fun_eq_iff)

lemma consistent_cong:
  assumes c: "consistent st"
    and nx: "bk_next st' = bk_next st" and bk: "bk_buckets st' = bk_buckets st"
    and rs: "\<And>a. map_option elem_removers (bk_elements st' a)
                  = map_option elem_removers (bk_elements st a)"
  shows "consistent st'"
proof -
  have sp: "sectionPairs st' key s = sectionPairs st key s" for key s
    by (simp add: sectionPairs_def bk)
  have sn: "sectionNextId st' key s = sectionNextId st key s" for key s
    by (simp add: sectionNextId_def bk)
  have ei: "entryIds st' a key s = entryIds st a key s" for a key s
    by (simp add: entryIds_def sp)
  have dom: "bk_elements st' a = None \<longleftrightarrow> bk_elements st a = None" for a
    using rs [of a] by (cases "bk_elements st a"; cases "bk_elements st' a") simp_all
  show ?thesis
  proof (rule consistentI)
    fix a assume "bk_next st' \<le> a"
    then show "bk_elements st' a = None"
      using consistentD(1) [OF c, of a] dom nx by simp
  next
    fix key s x assume "x \<in> set (sectionPairs st' key s)"
    then have "x \<in> set (sectionPairs st key s)" by (simp add: sp)
    then show "fst x < sectionNextId st' key s"
      using consistentD(2) [OF c] by (simp add: sn)
  next
    fix key s x assume "x \<in> set (sectionPairs st' key s)"
    then have "x \<in> set (sectionPairs st key s)" by (simp add: sp)
    then show "bk_elements st' (e_p (snd x)) \<noteq> None"
      using consistentD(3) [OF c] dom by simp
  next
    fix key s show "distinct (map fst (sectionPairs st' key s))"
      using consistentD(4) [OF c] by (simp add: sp)
  next
    fix a el key s assume "bk_elements st' a = Some el"
    with rs [of a] obtain el0 where el0: "bk_elements st a = Some el0"
        "elem_removers el0 = elem_removers el"
      by (cases "bk_elements st a") auto
    show "entryIds st' a key s = removerIds el key s"
      using consistentD(5) [OF c el0(1), of key s] by (simp add: ei removerIds_def el0(2))
  qed
qed

lemma consistent_static: "consistent st \<Longrightarrow> consistent (st\<lparr>bk_static := sta\<rparr>)"
  by (erule consistent_cong) simp_all

lemma consistent_eraser: "consistent st \<Longrightarrow> consistent (st\<lparr>bk_eraser := era\<rparr>)"
  by (erule consistent_cong) simp_all

lemma consistent_element_update:
  assumes "consistent st" and "bk_elements st a = Some el"
    and "elem_removers el' = elem_removers el"
  shows "consistent (st\<lparr>bk_elements := (bk_elements st)(a \<mapsto> el')\<rparr>)"
  using assms(1) by (rule consistent_cong) (simp_all add: assms(2,3))

lemma consistent_getBucket: "consistent st \<Longrightarrow> consistent (snd (getBucket st key))"
proof -
  assume c: "consistent st"
  have sp: "sectionPairs (snd (getBucket st key)) key' s = sectionPairs st key' s" for key' s
    by (simp add: getBucket_def sectionPairs_def Bucket_new_def split: option.splits)
  have sn: "sectionNextId (snd (getBucket st key)) key' s = sectionNextId st key' s" for key' s
    by (simp add: getBucket_def sectionNextId_def Bucket_new_def split: option.splits)
  have nx: "bk_next (snd (getBucket st key)) = bk_next st"
    by (simp add: getBucket_def split: option.splits)
  have ei: "entryIds (snd (getBucket st key)) a key' s = entryIds st a key' s" for a key' s
    by (simp add: entryIds_def sp)
  show ?thesis
    by (rule consistentI)
      (use c in \<open>simp_all add: sp sn nx ei getBucket_snd_elements consistentD\<close>)
qed

subsection \<open>The invariant is kept by \<^verbatim>\<open>addToBucket\<close> and \<^verbatim>\<open>remove\<close>\<close>

lemma distinct_fst_eq:
  "distinct (map fst xs) \<Longrightarrow> x \<in> set xs \<Longrightarrow> y \<in> set xs \<Longrightarrow> fst x = fst y \<Longrightarrow> x = y"
  by (auto simp: distinct_map dest: inj_onD)

lemma consistent_addToBucket:
  assumes c: "consistent st"
  shows "consistent (addToBucket st a key)"
proof (cases "bk_elements st a")
  case None
  then show ?thesis using c by (simp add: addToBucket_none)
next
  case (Some el)
  define z where "z = p2 (elem_p el)"
  define n where "n = sectionNextId st key z"
  define r where "r = \<lparr>rm_bucket = key, rm_section = z, rm_id = n\<rparr>"
  let ?st = "addToBucket st a key"
  have sp: "sectionPairs ?st key' s = sectionPairs st key' s
              @ (if key' = key \<and> s = z then [(n, newEntry st el a)] else [])" for key' s
    unfolding z_def n_def by (rule addToBucket_pairs [OF Some])
  have sn: "sectionNextId ?st key' s
              = (if key' = key \<and> s = z then n + 1 else sectionNextId st key' s)" for key' s
    by (simp add: addToBucket_nextId [OF Some] z_def n_def)
  have els: "bk_elements ?st = (bk_elements st)(a \<mapsto> el\<lparr>elem_removers := elem_removers el @ [r]\<rparr>)"
    unfolding z_def n_def r_def by (rule addToBucket_remover [OF Some])
  have ep: "e_p (newEntry st el a) = a" by (simp add: newEntry_def)
  have below: "fst x < n" if "x \<in> set (sectionPairs st key z)" for x
    using consistentD(2) [OF c that] by (simp add: n_def)
  show ?thesis
  proof (rule consistentI)
    fix b assume "bk_next ?st \<le> b"
    then have "bk_elements st b = None"
      using consistentD(1) [OF c, of b] by (simp add: addToBucket_next)
    with Some show "bk_elements ?st b = None" by (auto simp: els)
  next
    fix key' s x assume x: "x \<in> set (sectionPairs ?st key' s)"
    show "fst x < sectionNextId ?st key' s"
    proof (cases "key' = key \<and> s = z")
      case True
      with x have "x \<in> set (sectionPairs st key z) \<or> fst x = n" by (auto simp: sp)
      with below [of x] True show ?thesis by (auto simp: sn)
    next
      case False
      with x have "x \<in> set (sectionPairs st key' s)" by (auto simp: sp)
      with consistentD(2) [OF c, of x key' s] False show ?thesis by (auto simp: sn)
    qed
  next
    fix key' s x assume x: "x \<in> set (sectionPairs ?st key' s)"
    then have "x \<in> set (sectionPairs st key' s) \<or> e_p (snd x) = a"
      by (auto simp: sp ep split: if_splits)
    with consistentD(3) [OF c, of x key' s] show "bk_elements ?st (e_p (snd x)) \<noteq> None"
      by (auto simp: els)
  next
    fix key' s
    have "n \<notin> fst ` set (sectionPairs st key z)" using below by auto
    with consistentD(4) [OF c, of key' s] show "distinct (map fst (sectionPairs ?st key' s))"
      by (auto simp: sp)
  next
    fix b el' key' s assume b: "bk_elements ?st b = Some el'"
    show "entryIds ?st b key' s = removerIds el' key' s"
    proof (cases "b = a")
      case True
      with b have el': "el' = el\<lparr>elem_removers := elem_removers el @ [r]\<rparr>" by (simp add: els)
      have "entryIds ?st a key' s
            = entryIds st a key' s @ (if key' = key \<and> s = z then [n] else [])"
        by (simp add: entryIds_def sp ep)
      moreover have "removerIds el' key' s
            = removerIds el key' s @ (if key' = key \<and> s = z then [n] else [])"
        by (auto simp: removerIds_def el' r_def)
      ultimately show ?thesis using consistentD(5) [OF c Some, of key' s] True by simp
    next
      case False
      with b have b0: "bk_elements st b = Some el'" by (simp add: els)
      have "entryIds ?st b key' s = entryIds st b key' s"
        using False by (simp add: entryIds_def sp ep)
      with consistentD(5) [OF c b0, of key' s] show ?thesis by simp
    qed
  qed
qed

lemma Element_remove_none: "bk_elements st a = None \<Longrightarrow> Element_remove st a = st"
  by (simp add: Element_remove_def)

lemma Element_remove_elements:
  assumes "bk_elements st a = Some el"
  shows "bk_elements (Element_remove st a)
         = (bk_elements st)(a \<mapsto> el\<lparr>elem_removers := [], elem_removed := True\<rparr>)"
  by (simp add: Element_remove_def assms fold_callRemover_elements Let_def)

lemma Element_remove_next: "bk_next (Element_remove st a) = bk_next st"
  by (simp add: Element_remove_def fold_callRemover_next Let_def split: option.splits)

lemma Element_remove_static: "bk_static (Element_remove st a) = bk_static st"
  by (simp add: Element_remove_def fold_callRemover_static Let_def split: option.splits)

lemma Element_remove_eraser: "bk_eraser (Element_remove st a) = bk_eraser st"
  by (simp add: Element_remove_def fold_callRemover_eraser Let_def split: option.splits)

lemma Element_remove_nextId: "sectionNextId (Element_remove st a) key s = sectionNextId st key s"
  by (simp add: Element_remove_def fold_callRemover_nextId Let_def split: option.splits)

lemma Element_remove_minS: "bucketMinS (Element_remove st a) key = bucketMinS st key"
  by (simp add: Element_remove_def fold_callRemover_minS Let_def split: option.splits)

lemma Element_remove_maxS: "bucketMaxS (Element_remove st a) key = bucketMaxS st key"
  by (simp add: Element_remove_def fold_callRemover_maxS Let_def split: option.splits)

text \<open>In a consistent state \<^verbatim>\<open>remove\<close> takes out exactly the entries of its element.\<close>

lemma Element_remove_pairs:
  assumes c: "consistent st" and el: "bk_elements st a = Some el"
  shows "sectionPairs (Element_remove st a) key s
         = filter (\<lambda>x. e_p (snd x) \<noteq> a) (sectionPairs st key s)"
proof -
  have "sectionPairs (Element_remove st a) key s
        = sectionPairs (fold callRemover (elem_removers el) st) key s"
    by (simp add: Element_remove_def el Let_def)
  also have "\<dots> = filter (\<lambda>x. fst x \<notin> set (removerIds el key s)) (sectionPairs st key s)"
    unfolding fold_callRemover_pairs removerIds_def by (rule refl)
  also have "\<dots> = filter (\<lambda>x. fst x \<notin> set (entryIds st a key s)) (sectionPairs st key s)"
    by (simp add: consistentD(5) [OF c el])
  also have "\<dots> = filter (\<lambda>x. e_p (snd x) \<noteq> a) (sectionPairs st key s)"
  proof (rule filter_cong [OF refl])
    fix x assume x: "x \<in> set (sectionPairs st key s)"
    note d = consistentD(4) [OF c, of key s]
    show "(fst x \<notin> set (entryIds st a key s)) = (e_p (snd x) \<noteq> a)"
    proof (cases "e_p (snd x) = a")
      case True
      with x have "fst x \<in> set (entryIds st a key s)" by (auto simp: entryIds_def)
      with True show ?thesis by simp
    next
      case False
      have "fst x \<notin> set (entryIds st a key s)"
      proof
        assume "fst x \<in> set (entryIds st a key s)"
        then obtain y where y: "y \<in> set (sectionPairs st key s)" "e_p (snd y) = a" "fst y = fst x"
          by (auto simp: entryIds_def)
        from distinct_fst_eq [OF d x y(1)] y(3) have "x = y" by simp
        with y(2) False show False by simp
      qed
      with False show ?thesis by simp
    qed
  qed
  finally show ?thesis .
qed

lemma consistent_Element_remove:
  assumes c: "consistent st"
  shows "consistent (Element_remove st a)"
proof (cases "bk_elements st a")
  case None
  then show ?thesis using c by (simp add: Element_remove_none)
next
  case (Some el)
  let ?st = "Element_remove st a"
  note sp = Element_remove_pairs [OF c Some]
  note els = Element_remove_elements [OF Some]
  show ?thesis
  proof (rule consistentI)
    fix b assume "bk_next ?st \<le> b"
    then have "bk_elements st b = None"
      using consistentD(1) [OF c, of b] by (simp add: Element_remove_next)
    with Some show "bk_elements ?st b = None" by (auto simp: els)
  next
    fix key s x assume "x \<in> set (sectionPairs ?st key s)"
    then have "x \<in> set (sectionPairs st key s)" by (simp add: sp)
    then show "fst x < sectionNextId ?st key s"
      using consistentD(2) [OF c] by (simp add: Element_remove_nextId)
  next
    fix key s x assume "x \<in> set (sectionPairs ?st key s)"
    then have "x \<in> set (sectionPairs st key s)" by (simp add: sp)
    then show "bk_elements ?st (e_p (snd x)) \<noteq> None"
      using consistentD(3) [OF c, of x key s] by (auto simp: els)
  next
    fix key s show "distinct (map fst (sectionPairs ?st key s))"
      using consistentD(4) [OF c, of key s] by (simp add: sp distinct_map_filter)
  next
    fix b el' key s assume b: "bk_elements ?st b = Some el'"
    show "entryIds ?st b key s = removerIds el' key s"
    proof (cases "b = a")
      case True
      with b have "elem_removers el' = []" by (auto simp: els)
      then show ?thesis using True by (simp add: entryIds_def sp removerIds_def)
    next
      case False
      with b have b0: "bk_elements st b = Some el'" by (simp add: els)
      have "filter (\<lambda>x. e_p (snd x) = b) (filter (\<lambda>x. e_p (snd x) \<noteq> a) (sectionPairs st key s))
            = filter (\<lambda>x. e_p (snd x) = b) (sectionPairs st key s)"
        using False by (auto intro: filter_cong)
      then have "entryIds ?st b key s = entryIds st b key s"
        by (simp add: entryIds_def sp)
      with consistentD(5) [OF c b0, of key s] show ?thesis by simp
    qed
  qed
qed

subsection \<open>The invariant is kept by every call\<close>

lemma consistent_Buckets_new: "consistent (Buckets_new d)"
  by (rule consistentI)
    (simp_all add: Buckets_new_def sectionPairs_def entryIds_def)

lemma consistent_fold_addToBucket:
  "consistent st \<Longrightarrow> consistent (fold (\<lambda>key s. addToBucket s a key) keys st)"
  by (induction keys arbitrary: st) (simp_all add: consistent_addToBucket)

lemma consistent_addToBuckets: "consistent st \<Longrightarrow> consistent (addToBuckets v st a)"
  by (simp add: addToBuckets_def consistent_fold_addToBucket split: option.splits)

lemma consistent_alloc:
  assumes c: "consistent st" and rs: "elem_removers el = []"
  shows "consistent (st\<lparr>bk_elements := (bk_elements st)(bk_next st \<mapsto> el), bk_next := bk_next st + 1\<rparr>)"
    (is "consistent ?st")
proof (rule consistentI)
  fix a assume "bk_next ?st \<le> a"
  then show "bk_elements ?st a = None"
    using consistentD(1) [OF c, of a] by simp
next
  fix key s x assume "x \<in> set (sectionPairs ?st key s)"
  then show "fst x < sectionNextId ?st key s"
    using consistentD(2) [OF c, of x key s] by simp
next
  fix key s x assume "x \<in> set (sectionPairs ?st key s)"
  then show "bk_elements ?st (e_p (snd x)) \<noteq> None"
    using consistentD(3) [OF c, of x key s] by simp
next
  fix key s show "distinct (map fst (sectionPairs ?st key s))"
    using consistentD(4) [OF c, of key s] by simp
next
  fix a el' key s assume a: "bk_elements ?st a = Some el'"
  show "entryIds ?st a key s = removerIds el' key s"
  proof (cases "a = bk_next st")
    case True
    have "e_p (snd x) \<noteq> bk_next st" if "x \<in> set (sectionPairs st key s)" for x
      using consistentD(3) [OF c that] consistentD(1) [OF c, of "e_p (snd x)"] by auto
    then have "filter (\<lambda>x. e_p (snd x) = bk_next st) (sectionPairs st key s) = []"
      by (auto simp: filter_empty_conv)
    moreover from a True have "el' = el" by simp
    ultimately show ?thesis using True by (simp add: entryIds_def removerIds_def rs)
  next
    case False
    with a have "bk_elements st a = Some el'" by simp
    from consistentD(5) [OF c this, of key s] show ?thesis by simp
  qed
qed

lemma consistent_Element:
  "consistent st \<Longrightarrow> consistent (snd (Element v st element animation i j k now))"
  by (simp add: Element_def Let_def consistent_addToBuckets
      consistent_alloc [unfolded Suc_eq_plus1 [symmetric]])

lemma consistent_callBoundRemover: "consistent st \<Longrightarrow> consistent (snd (callBoundRemover st h))"
  by (simp add: callBoundRemover_def consistent_Element_remove split: handle.splits)

lemma consistent_callEraser: "consistent st \<Longrightarrow> consistent (snd (callEraser st i j k f))"
  by (simp add: callEraser_def Let_def consistent_callBoundRemover consistent_eraser)

lemma consistent_removeTile: "consistent st \<Longrightarrow> consistent (snd (removeTile st i j k))"
  by (simp add: removeTile_def consistent_callEraser split: option.splits)

lemma consistent_addTile: "consistent st \<Longrightarrow> consistent (snd (addTile v d st n i j k now))"
  by (simp add: addTile_def Let_def split_beta consistent_Element consistent_static
      consistent_eraser split: option.splits)

lemma consistent_addEntity: "consistent st \<Longrightarrow> consistent (snd (addEntity v d st n i j k now))"
  by (simp add: addEntity_def Let_def split_beta consistent_Element consistent_static
      split: option.splits)

lemma consistent_replaceTile:
  "consistent st \<Longrightarrow> consistent (snd (replaceTile v d st i j k n now))"
  by (simp add: replaceTile_def consistent_addTile consistent_callEraser split: option.splits)

lemma consistent_replace: "consistent st \<Longrightarrow> consistent (snd (replace v d st h n now))"
  by (simp add: replace_def Let_def split_beta consistent_Element consistent_static
      consistent_Element_remove split: option.splits handle.splits)

lemma forEachElement_state:
  "snd (forEachElement v st now)
   = (let i = \<lfloor>- v_y0 v / real (v_height v)\<rfloor>; j = \<lfloor>- v_x0 v / real (v_width v)\<rfloor>
      in snd (getBucket (snd (getBucket (snd (getBucket (snd (getBucket st (i, j))) (i, j + 1)))
                (i + 1, j))) (i + 1, j + 1)))"
  by (simp add: forEachElement_def Let_def split_beta)

lemma consistent_forEachElement: "consistent st \<Longrightarrow> consistent (snd (forEachElement v st now))"
  by (simp add: forEachElement_state Let_def consistent_getBucket)


subsection \<open>Calls on other elements\<close>

lemma keeps_frame:
  assumes "bk_buckets st' = bk_buckets st" and "bk_elements st' a = bk_elements st a"
  shows "keeps a st st'"
  by (rule keepsI) (simp_all add: assms sectionEntries_def bucketMinS_def bucketMaxS_def)

lemma keeps_getBucket: "keeps a st (snd (getBucket st key))"
  by (rule keepsI)
    (simp_all add: getBucket_snd_entries getBucket_snd_minS getBucket_snd_maxS
      getBucket_snd_elements)

lemma keeps_addToBucket:
  assumes "a \<noteq> b"
  shows "keeps a st (addToBucket st b key)"
proof (cases "bk_elements st b")
  case None
  then show ?thesis by (simp add: addToBucket_none keeps_refl)
next
  case (Some el)
  have ep: "e_p (newEntry st el b) = b" by (simp add: newEntry_def)
  show ?thesis
  proof (rule keepsI)
    show "bk_elements (addToBucket st b key) a = bk_elements st a"
      using assms by (simp add: addToBucket_remover [OF Some])
    show "filter (\<lambda>e. e_p e = a) (sectionEntries (addToBucket st b key) key' s)
          = filter (\<lambda>e. e_p e = a) (sectionEntries st key' s)" for key' s
      using assms by (simp add: addToBucket_entries [OF Some] ep)
    show "bucketMinS (addToBucket st b key) key' \<le> bucketMinS st key'" for key'
      by (simp add: addToBucket_minS [OF Some])
    show "bucketMaxS st key' \<le> bucketMaxS (addToBucket st b key) key'" for key'
      by (simp add: addToBucket_maxS [OF Some])
  qed
qed

lemma keeps_fold_addToBucket:
  assumes "a \<noteq> b"
  shows "keeps a st (fold (\<lambda>key s. addToBucket s b key) keys st)"
proof (induction keys arbitrary: st)
  case Nil
  show ?case by (simp add: keeps_refl)
next
  case (Cons key keys)
  show ?case
    unfolding fold_simps
    by (rule keeps_trans [OF keeps_addToBucket [OF assms] Cons.IH])
qed

lemma keeps_addToBuckets: "a \<noteq> b \<Longrightarrow> keeps a st (addToBuckets v st b)"
  by (simp add: addToBuckets_def keeps_fold_addToBucket keeps_refl split: option.splits)

lemma keeps_Element_remove:
  assumes c: "consistent st" and ne: "a \<noteq> b"
  shows "keeps a st (Element_remove st b)"
proof (cases "bk_elements st b")
  case None
  then show ?thesis by (simp add: Element_remove_none keeps_refl)
next
  case (Some el)
  show ?thesis
  proof (rule keepsI)
    show "bk_elements (Element_remove st b) a = bk_elements st a"
      using ne by (simp add: Element_remove_elements [OF Some])
    show "filter (\<lambda>e. e_p e = a) (sectionEntries (Element_remove st b) key s)
          = filter (\<lambda>e. e_p e = a) (sectionEntries st key s)" for key s
    proof -
      have "filter (\<lambda>x. e_p (snd x) = a) (filter (\<lambda>x. e_p (snd x) \<noteq> b) (sectionPairs st key s))
            = filter (\<lambda>x. e_p (snd x) = a) (sectionPairs st key s)"
        using ne by (auto intro: filter_cong)
      then show ?thesis
        by (simp add: sectionEntries_pairs Element_remove_pairs [OF c Some] filter_map o_def)
    qed
    show "bucketMinS (Element_remove st b) key \<le> bucketMinS st key" for key
      by (simp add: Element_remove_minS)
    show "bucketMaxS st key \<le> bucketMaxS (Element_remove st b) key" for key
      by (simp add: Element_remove_maxS)
  qed
qed

lemma keeps_Element:
  assumes c: "consistent st" and a: "bk_elements st a \<noteq> None"
  shows "keeps a st (snd (Element v st element animation i j k now))"
proof -
  have ne: "a \<noteq> bk_next st" using consistentD(1) [OF c, of a] a by auto
  show ?thesis
  proof (cases "length (el_frames element) = 0")
    case True
    then show ?thesis by (simp add: Element_def keeps_refl)
  next
    case False
    show ?thesis
      unfolding Element_def Let_def if_not_P [OF False] snd_conv
      by (rule keeps_trans [OF keeps_frame keeps_addToBuckets [OF ne]]) (use ne in simp_all)
  qed
qed

lemma keeps_callBoundRemover:
  "consistent st \<Longrightarrow> h \<noteq> ElementAt a \<Longrightarrow> keeps a st (snd (callBoundRemover st h))"
  by (cases h) (auto simp: callBoundRemover_def keeps_refl intro: keeps_Element_remove)

lemma keeps_callEraser:
  assumes "consistent st" and "er_remover f \<noteq> ElementAt a"
  shows "keeps a st (snd (callEraser st i j k f))"
proof -
  let ?st1 = "snd (callBoundRemover st (er_remover f))"
  have k1: "keeps a st ?st1" using assms by (rule keeps_callBoundRemover)
  have k2: "keeps a ?st1 (?st1\<lparr>bk_eraser := era\<rparr>)" for era by (rule keeps_frame) simp_all
  show ?thesis
    by (simp add: callEraser_def Let_def k1 keeps_trans [OF k1 k2])
qed

lemma keeps_removeTile:
  assumes "consistent st" and "\<not> touches st (RemoveTile i j k) a"
  shows "keeps a st (snd (removeTile st i j k))"
  using assms by (auto simp: removeTile_def keeps_refl intro: keeps_callEraser split: option.splits)

lemma keeps_addTile:
  assumes c: "consistent st" and a: "bk_elements st a \<noteq> None"
  shows "keeps a st (snd (addTile v d st n i j k now))"
proof (cases "tiles d n")
  case None
  then show ?thesis by (simp add: addTile_def keeps_refl)
next
  case (Some tile)
  define st1 where "st1 = st\<lparr>bk_static := (bk_static st)(TileAnim n :=
                          (bk_static st (TileAnim n) \<and> \<not> mutable tile))\<rparr>"
  define st2 where "st2 = snd (Element v st1 tile (TileAnim n)
                            (real_of_int i) (real_of_int j) (real_of_int k) now)"
  have k1: "keeps a st st1" unfolding st1_def by (rule keeps_frame) simp_all
  have c1: "consistent st1" unfolding st1_def using c by (rule consistent_static)
  have a1: "bk_elements st1 a \<noteq> None" using a by (simp add: st1_def)
  have k2: "keeps a st st2"
    unfolding st2_def by (rule keeps_trans [OF k1 keeps_Element [OF c1 a1]])
  have k3: "keeps a st (st2\<lparr>bk_eraser := era\<rparr>)" for era
    by (rule keeps_trans [OF k2 keeps_frame]) simp_all
  have sn: "snd (addTile v d st n i j k now)
            = (if mutable tile
               then st2\<lparr>bk_eraser := Matrix_put (bk_eraser st2) i j k
                     \<lparr>er_remover = fst (Element v st1 tile (TileAnim n)
                            (real_of_int i) (real_of_int j) (real_of_int k) now),
                      er_removed = False\<rparr>\<rparr>
               else st2)"
    unfolding st1_def st2_def by (simp add: addTile_def Some Let_def split_beta)
  show ?thesis
    by (simp only: sn k2 k3 simp_thms split: if_split)
qed

lemma keeps_addEntity:
  assumes c: "consistent st" and a: "bk_elements st a \<noteq> None"
  shows "keeps a st (snd (addEntity v d st n i j k now))"
proof (cases "entities d n")
  case None
  then show ?thesis by (simp add: addEntity_def keeps_refl)
next
  case (Some entity)
  define st1 where "st1 = st\<lparr>bk_static := (bk_static st)(EntityAnim n := False)\<rparr>"
  have k1: "keeps a st st1" unfolding st1_def by (rule keeps_frame) simp_all
  have c1: "consistent st1" unfolding st1_def using c by (rule consistent_static)
  have a1: "bk_elements st1 a \<noteq> None" using a by (simp add: st1_def)
  have "keeps a st (snd (Element v st1 entity (EntityAnim n) i j k now))"
    by (rule keeps_trans [OF k1 keeps_Element [OF c1 a1]])
  then show ?thesis
    by (simp add: addEntity_def Some Let_def split_beta st1_def)
qed

lemma keeps_elements: "keeps a st st' \<Longrightarrow> bk_elements st a \<noteq> None \<Longrightarrow> bk_elements st' a \<noteq> None"
  by (simp add: keepsD(1))

lemma keeps_replaceTile:
  assumes c: "consistent st" and a: "bk_elements st a \<noteq> None"
    and nt: "\<not> touches st (ReplaceTile i j k n now) a"
  shows "keeps a st (snd (replaceTile v d st i j k n now))"
proof (cases "Matrix_get (bk_eraser st) i j k")
  case None
  then show ?thesis by (simp add: replaceTile_def keeps_refl)
next
  case (Some f)
  let ?st1 = "snd (callEraser st i j k f)"
  from nt Some have "er_remover f \<noteq> ElementAt a" by simp
  with c have k1: "keeps a st ?st1" by (rule keeps_callEraser)
  have c1: "consistent ?st1" using c by (rule consistent_callEraser)
  have "keeps a ?st1 (snd (addTile v d ?st1 n i j k now))"
    using c1 keeps_elements [OF k1 a] by (rule keeps_addTile)
  with k1 show ?thesis
    by (simp add: replaceTile_def Some keeps_trans)
qed

lemma keeps_replace:
  assumes c: "consistent st" and a: "bk_elements st a \<noteq> None" and ne: "h \<noteq> ElementAt a"
  shows "keeps a st (snd (replace v d st h n now))"
proof (cases h)
  case Mock
  then show ?thesis by (simp add: replace_def keeps_refl)
next
  case (ElementAt b)
  with ne have ab: "a \<noteq> b" by simp
  show ?thesis
  proof (cases "bk_elements st b")
    case None
    then show ?thesis by (simp add: replace_def ElementAt keeps_refl)
  next
    case (Some el)
    show ?thesis
    proof (cases "elem_removed el \<or> entities d n = None")
      case True
      then show ?thesis
        by (auto simp: replace_def ElementAt Some keeps_refl split: option.splits)
    next
      case False
      then obtain entity where en: "entities d n = Some entity" and nr: "\<not> elem_removed el"
        by auto
      define st1 where "st1 = Element_remove st b"
      define st2 where "st2 = st1\<lparr>bk_static := (bk_static st1)(EntityAnim n := False)\<rparr>"
      have k1: "keeps a st st1" unfolding st1_def using c ab by (rule keeps_Element_remove)
      have c1: "consistent st1" unfolding st1_def using c by (rule consistent_Element_remove)
      have k2: "keeps a st st2"
        unfolding st2_def by (rule keeps_trans [OF k1 keeps_frame]) simp_all
      have c2: "consistent st2" unfolding st2_def using c1 by (rule consistent_static)
      have "keeps a st (snd (Element v st2 entity (EntityAnim n)
                               (elem_i el) (elem_j el) (elem_k el) now))"
        by (rule keeps_trans [OF k2 keeps_Element [OF c2 keeps_elements [OF k2 a]]])
      then show ?thesis
        by (simp add: replace_def ElementAt Some en nr Let_def split_beta st1_def st2_def)
    qed
  qed
qed

lemma keeps_forEachElement: "keeps a st (snd (forEachElement v st now))"
  unfolding forEachElement_state Let_def
  by (intro keeps_trans [OF _ keeps_getBucket] keeps_getBucket)

text \<open>\<^verbatim>\<open>updatePosition\<close>, step by step.\<close>

lemma updatePosition_steps:
  assumes c: "consistent st"
  shows "consistent (updatePosition v st h i j k)
         \<and> (h \<noteq> ElementAt a \<longrightarrow> keeps a st (updatePosition v st h i j k))"
proof (cases h)
  case Mock
  then show ?thesis using c by (simp add: updatePosition_def keeps_refl)
next
  case (ElementAt b)
  show ?thesis
  proof (cases "bk_elements st b")
    case None
    then show ?thesis using c by (simp add: updatePosition_def ElementAt keeps_refl)
  next
    case (Some el)
    show ?thesis
    proof (cases "elem_removed el")
      case True
      then show ?thesis using c by (simp add: updatePosition_def ElementAt Some keeps_refl)
    next
      case False
      define pnew where "pnew = projectElement v (elem_element el) i j k"
      define el1 where "el1 = el\<lparr>elem_i := i, elem_j := j, elem_k := k\<rparr>"
      define bi1 where "bi1 = p1 (elem_p el) div int (v_height v)"
      define bj1 where "bj1 = p0 (elem_p el) div int (v_width v)"
      define st0 where "st0 = st\<lparr>bk_elements := (bk_elements st)(b \<mapsto> el1)\<rparr>"
      define st1 where "st1 = Element_remove st0 b"
      define el2 where "el2 = el1\<lparr>elem_removers := [], elem_removed := True\<rparr>"
      define el3 where "el3 = el2\<lparr>elem_removed := False, elem_p := pnew,
                                  elem_bi := bi1, elem_bj := bj1\<rparr>"
      define st2 where "st2 = st1\<lparr>bk_elements := (bk_elements st1)(b \<mapsto> el3)\<rparr>"
      define st3 where "st3 = addToBuckets v st2 b"
      define st4 where "st4 = st\<lparr>bk_elements := (bk_elements st)(b \<mapsto> el1\<lparr>elem_p := pnew\<rparr>)\<rparr>"
      have e0: "bk_elements st0 b = Some el1" by (simp add: st0_def)
      have e1: "bk_elements st1 b = Some el2"
        unfolding st1_def el2_def by (simp add: Element_remove_elements [OF e0])
      have up: "updatePosition v st h i j k
                = (if p2 pnew \<noteq> p2 (elem_p el) \<or> bi1 \<noteq> elem_bi el \<or> bj1 \<noteq> elem_bj el
                   then st3 else st4)"
        unfolding updatePosition_def ElementAt handle.case Some option.case if_P [OF False]
          Let_def pnew_def [symmetric] el1_def [symmetric] bi1_def [symmetric]
          bj1_def [symmetric] st0_def [symmetric] st1_def [symmetric] e1 option.case
          el3_def [symmetric] st2_def [symmetric] st3_def [symmetric] st4_def [symmetric]
        by (rule refl)
      have c0: "consistent st0"
        unfolding st0_def using c Some by (rule consistent_element_update) (simp add: el1_def)
      have c1: "consistent st1" unfolding st1_def using c0 by (rule consistent_Element_remove)
      have c2: "consistent st2"
        unfolding st2_def using c1 e1 by (rule consistent_element_update) (simp add: el3_def)
      have c3: "consistent st3" unfolding st3_def using c2 by (rule consistent_addToBuckets)
      have c4: "consistent st4"
        unfolding st4_def using c Some by (rule consistent_element_update) (simp add: el1_def)
      have k: "keeps a st st3 \<and> keeps a st st4" if ab: "a \<noteq> b"
      proof
        have k0: "keeps a st st0" unfolding st0_def using ab by (intro keeps_frame) simp_all
        have k1: "keeps a st0 st1" unfolding st1_def using c0 ab by (rule keeps_Element_remove)
        have k2: "keeps a st1 st2" unfolding st2_def using ab by (intro keeps_frame) simp_all
        have k3: "keeps a st2 st3" unfolding st3_def using ab by (rule keeps_addToBuckets)
        show "keeps a st st3"
          by (rule keeps_trans [OF keeps_trans [OF keeps_trans [OF k0 k1] k2] k3])
        show "keeps a st st4" unfolding st4_def using ab by (intro keeps_frame) simp_all
      qed
      show ?thesis unfolding up using c3 c4 k ElementAt by auto
    qed
  qed
qed

lemma consistent_updatePosition: "consistent st \<Longrightarrow> consistent (updatePosition v st h i j k)"
  using updatePosition_steps by blast

lemma keeps_updatePosition:
  "consistent st \<Longrightarrow> h \<noteq> ElementAt a \<Longrightarrow> keeps a st (updatePosition v st h i j k)"
  using updatePosition_steps by blast

subsection \<open>Every call keeps the invariant and the registration of the other elements\<close>

theorem perform_consistent:
  assumes "consistent st"
  shows "consistent (perform v d c st)"
  using assms
  by (cases c)
    (simp_all add: consistent_addTile consistent_addEntity consistent_removeTile
      consistent_replaceTile consistent_callBoundRemover consistent_updatePosition
      consistent_replace consistent_forEachElement)

theorem perform_keeps:
  assumes c: "consistent st" and a: "bk_elements st a \<noteq> None" and nt: "\<not> touches st c a"
  shows "keeps a st (perform v d c st)"
proof (cases c)
  case (AddTile n i j k now)
  then show ?thesis using c a by (simp add: keeps_addTile)
next
  case (AddEntity n i j k now)
  then show ?thesis using c a by (simp add: keeps_addEntity)
next
  case (RemoveTile i j k)
  then show ?thesis using c nt by (simp add: keeps_removeTile del: touches.simps)
next
  case (ReplaceTile i j k n now)
  then show ?thesis using c a nt by (simp add: keeps_replaceTile del: touches.simps)
next
  case (Remove h)
  then show ?thesis using c nt by (simp add: keeps_callBoundRemover)
next
  case (UpdatePosition h i j k)
  then show ?thesis using c nt by (simp add: keeps_updatePosition)
next
  case (Replace h n now)
  then show ?thesis using c a nt by (simp add: keeps_replace)
next
  case (ForEachElement now)
  then show ?thesis by (simp add: keeps_forEachElement)
qed

theorem perform_placed:
  assumes c: "consistent st" and pl: "placed v st a" and nt: "\<not> touches st c a"
  shows "placed v (perform v d c st) a"
proof -
  from pl have "bk_elements st a \<noteq> None"
    by (cases "bk_elements st a") (simp_all add: placed_def)
  with c have "keeps a st (perform v d c st)" using nt by (rule perform_keeps)
  with pl show ?thesis by (rule placed_keeps)
qed

text \<open>A new element is registered by its constructor in every consistent state.\<close>

theorem Element_placed_consistent:
  assumes "consistent st" and "el_frames element \<noteq> []"
  shows "placed v (snd (Element v st element animation i j k now)) (bk_next st)"
  using consistent_fresh [OF assms(1)] assms(2) by (rule Element_placed(2))

subsection \<open>Reachable states\<close>

theorem reachable_consistent:
  assumes "reachable v d st"
  shows "consistent st"
  using assms
  by (induction rule: reachable.induct) (simp_all add: consistent_Buckets_new perform_consistent)

text \<open>The elements that \<^verbatim>\<open>addTile\<close>, \<^verbatim>\<open>addEntity\<close> and \<^verbatim>\<open>replace\<close> create are registered at
  their position.\<close>

lemma addTile_placed:
  assumes c: "consistent st" and t: "tiles d n = Some tile" and nz: "el_frames tile \<noteq> []"
  shows "placed v (snd (addTile v d st n i j k now)) (bk_next st)"
proof -
  define st1 where "st1 = st\<lparr>bk_static := (bk_static st)(TileAnim n :=
                          (bk_static st (TileAnim n) \<and> \<not> mutable tile))\<rparr>"
  define st2 where "st2 = snd (Element v st1 tile (TileAnim n)
                            (real_of_int i) (real_of_int j) (real_of_int k) now)"
  have c1: "consistent st1" unfolding st1_def using c by (rule consistent_static)
  have "placed v st2 (bk_next st1)"
    unfolding st2_def using c1 nz by (rule Element_placed_consistent)
  then have p2: "placed v st2 (bk_next st)" by (simp add: st1_def)
  have p3: "placed v (st2\<lparr>bk_eraser := era\<rparr>) (bk_next st)" for era
    using p2 by (rule placed_keeps) (rule keeps_frame, simp_all)
  have sn: "snd (addTile v d st n i j k now)
            = (if mutable tile
               then st2\<lparr>bk_eraser := Matrix_put (bk_eraser st2) i j k
                     \<lparr>er_remover = fst (Element v st1 tile (TileAnim n)
                            (real_of_int i) (real_of_int j) (real_of_int k) now),
                      er_removed = False\<rparr>\<rparr>
               else st2)"
    unfolding st1_def st2_def by (simp add: addTile_def t Let_def split_beta)
  show ?thesis
    by (simp only: sn p2 p3 simp_thms split: if_split)
qed

lemma addEntity_placed_consistent:
  assumes "consistent st" and "entities d n = Some entity" and "el_frames entity \<noteq> []"
  shows "placed v (snd (addEntity v d st n i j k now)) (bk_next st)"
  using consistent_fresh [OF assms(1)] assms(2,3) by (rule addEntity_placed(2))

lemma replace_placed:
  assumes c: "consistent st" and el: "bk_elements st b = Some el" and nr: "\<not> elem_removed el"
    and en: "entities d n = Some entity" and nz: "el_frames entity \<noteq> []"
  shows "placed v (snd (replace v d st (ElementAt b) n now)) (bk_next st)"
proof -
  define st1 where "st1 = Element_remove st b"
  define st2 where "st2 = st1\<lparr>bk_static := (bk_static st1)(EntityAnim n := False)\<rparr>"
  have c2: "consistent st2"
    unfolding st2_def st1_def using c by (intro consistent_static consistent_Element_remove)
  have nx: "bk_next st2 = bk_next st" by (simp add: st2_def st1_def Element_remove_next)
  have "placed v (snd (Element v st2 entity (EntityAnim n)
                         (elem_i el) (elem_j el) (elem_k el) now)) (bk_next st2)"
    using c2 nz by (rule Element_placed_consistent)
  then show ?thesis
    unfolding nx by (simp add: replace_def el nr en Let_def split_beta st1_def st2_def)
qed

text \<open>After \<^verbatim>\<open>remove\<close> no entry of the element is left in any bucket.\<close>

lemma Element_remove_entries:
  assumes "consistent st" and "bk_elements st a = Some el"
  shows "filter (\<lambda>e. e_p e = a) (sectionEntries (Element_remove st a) key s) = []"
  by (simp add: sectionEntries_pairs Element_remove_pairs [OF assms] filter_map o_def
      filter_empty_conv)

end
